theory Spec2Isabelle
  imports Main
begin

section \<open>The name-listener registry of hcid/dbus-common.c\<close>

text \<open>
  The unit keeps two globals, \<^verbatim>\<open>name_listener_initialized\<close> and
  \<^verbatim>\<open>name_listeners\<close>, and heap records of two struct types that are linked into
  singly linked lists by pointer. The model keeps the two globals, one store per struct
  type (a function from addresses to records) and the list of calls made to the
  outside: the bus library and the registered callbacks. A list of the list module is
  the list of the pointers it holds. \<^verbatim>\<open>malloc\<close> and the bus calls are answered by the
  outside; the answers are arguments of the functions, so that every failure the code
  checks for is a case of the model. \<^verbatim>\<open>free\<close> is only ever called on a record the
  code has unlinked; it leaves the stores as they are.

  Pointers are addresses; a pointer that may be NULL is an \<open>addr option\<close>.
  Function pointers and the \<^verbatim>\<open>void *user_data\<close> are addresses too: the code only
  compares them with \<^verbatim>\<open>==\<close>. A C string is a \<open>string\<close> and \<^verbatim>\<open>strcmp(a, b) == 0\<close>
  is equality. The code has one \<^verbatim>\<open>DBusConnection\<close> in hand at a time; the model
  records the calls made on it and leaves the handle out.
\<close>

subsection \<open>Data\<close>

type_synonym addr = nat

record name_callback =
  func :: addr
  user_data :: addr

record name_data =
  name :: string
  callbacks :: "addr list"

text \<open>
  A call that leaves the unit. \<open>Add_filter ok\<close> is
  \<^verbatim>\<open>dbus_connection_add_filter(connection, name_exit_filter, NULL, NULL)\<close> with its
  result; \<open>Add_match rule ok\<close> and \<open>Remove_match rule ok\<close> are
  \<^verbatim>\<open>dbus_bus_add_match\<close> and \<^verbatim>\<open>dbus_bus_remove_match\<close> with the rule text, \<open>ok\<close>
  false when the call set the \<^verbatim>\<open>DBusError\<close>; \<open>Callback f nm u\<close> is the call
  \<^verbatim>\<open>cb->func(name, cb->user_data)\<close>. The \<^verbatim>\<open>syslog\<close> lines are left out.
\<close>

datatype bus_call =
    Add_filter bool
  | Add_match string bool
  | Remove_match string bool
  | Callback addr string addr

record registry =
  name_listener_initialized :: bool
  name_listeners :: "addr list"
  data_mem :: "addr \<Rightarrow> name_data"
  cb_mem :: "addr \<Rightarrow> name_callback"
  bus_calls :: "bus_call list"

text \<open>
  What the outside answers during one \<^verbatim>\<open>name_listener_add\<close>: the two
  \<^verbatim>\<open>malloc\<close> results (\<open>None\<close> is NULL), whether \<^verbatim>\<open>strdup\<close> returned a copy,
  whether \<^verbatim>\<open>dbus_connection_add_filter\<close> returned true and whether
  \<^verbatim>\<open>dbus_bus_add_match\<close> left the error unset. An answer is read only if the call is
  made.
\<close>

record add_env =
  malloc_cb :: "addr option"
  malloc_data :: "addr option"
  strdup_ok :: bool
  add_filter_ok :: bool
  add_match_ok :: bool

text \<open>
  An incoming message, as far as \<^verbatim>\<open>dbus_message_is_signal\<close> and
  \<^verbatim>\<open>dbus_message_get_args\<close> look at it: its type, interface, member and arguments.
\<close>

datatype dbus_arg = Arg_string string | Arg_other

record message =
  msg_signal :: bool
  msg_interface :: string
  msg_member :: string
  msg_args :: "dbus_arg list"

datatype DBusHandlerResult = HANDLED | NOT_YET_HANDLED

subsection \<open>The list module and the bus library\<close>

definition slist_append :: "addr list \<Rightarrow> addr \<Rightarrow> addr list" where
  \<comment> \<open>Modelled from the spec: \<^verbatim>\<open>slist_append\<close> of list.h is not among the sources; the
      spec has an ordered collection, insertion order preserved, to which a new
      registration is appended.\<close>
  "slist_append l d = l @ [d]"

definition slist_remove :: "addr list \<Rightarrow> addr \<Rightarrow> addr list" where
  \<comment> \<open>Modelled from the spec: \<^verbatim>\<open>slist_remove\<close> of list.h is not among the sources; the
      spec removes that single registration, located by identity, and keeps the rest
      in order.\<close>
  "slist_remove l d = remove1 d l"

definition slist_first :: "addr list \<Rightarrow> addr option" where
  \<comment> \<open>Modelled from the spec: \<^verbatim>\<open>struct slist\<close> of list.h is not among the sources; the
      spec has an ordered collection. The head node of a list, \<open>None\<close> for NULL. A node
      is named by the record it holds (\<^verbatim>\<open>l->data\<close>); the unit links a record into one
      list, once.\<close>
  "slist_first l = (case l of [] \<Rightarrow> None | x # rest \<Rightarrow> Some x)"

fun slist_next :: "addr list \<Rightarrow> addr \<Rightarrow> addr option" where
  \<comment> \<open>Modelled from the spec: \<^verbatim>\<open>struct slist\<close> of list.h is not among the sources; the
      spec has an ordered collection. \<^verbatim>\<open>l->next\<close> of the node holding \<open>cb\<close> in the list
      as it is now: the node after it, \<open>None\<close> for NULL.\<close>
  "slist_next [] cb = None"
| "slist_next (x # rest) cb = (if x = cb then slist_first rest else slist_next rest cb)"

definition dbus_message_is_signal :: "message \<Rightarrow> string \<Rightarrow> string \<Rightarrow> bool" where
  "dbus_message_is_signal m iface member \<longleftrightarrow>
     msg_signal m \<and> msg_interface m = iface \<and> msg_member m = member"

definition dbus_message_get_args :: "message \<Rightarrow> (string \<times> string \<times> string) option" where
  \<comment> \<open>The call asks for three strings; \<open>None\<close> is its false result.\<close>
  "dbus_message_get_args m =
     (case msg_args m of
        Arg_string a # Arg_string b # Arg_string c # _ \<Rightarrow> Some (a, b, c)
      | _ \<Rightarrow> None)"

definition match_string :: "string \<Rightarrow> string \<Rightarrow> string" where
  \<comment> \<open>\<^verbatim>\<open>snprintf(match_string, sizeof(match_string), ...)\<close> into \<^verbatim>\<open>char match_string[128]\<close>:
      at most 127 characters are kept. \<open>iface\<close> is the macro \<^verbatim>\<open>DBUS_INTERFACE_DBUS\<close>
      of the bus library's headers.\<close>
  "match_string iface nm =
     take 127 (''interface='' @ iface @ '',member=NameOwnerChanged,arg0='' @ nm)"

definition bus_call :: "bus_call \<Rightarrow> registry \<Rightarrow> registry" where
  "bus_call c s = s\<lparr>bus_calls := bus_calls s @ [c]\<rparr>"

subsection \<open>The static functions\<close>

fun name_data_find_from :: "(addr \<Rightarrow> name_data) \<Rightarrow> addr list \<Rightarrow> string \<Rightarrow> addr option" where
  "name_data_find_from mem [] nm = None"
| "name_data_find_from mem (d # rest) nm =
     (if nm = name (mem d) then Some d else name_data_find_from mem rest nm)"

definition name_data_find :: "registry \<Rightarrow> string \<Rightarrow> addr option" where
  "name_data_find s nm = name_data_find_from (data_mem s) (name_listeners s) nm"

fun name_callback_find :: "(addr \<Rightarrow> name_callback) \<Rightarrow> addr list \<Rightarrow> addr \<Rightarrow> addr \<Rightarrow> addr option" where
  "name_callback_find mem [] f u = None"
| "name_callback_find mem (cb # rest) f u =
     (if func (mem cb) = f \<and> user_data (mem cb) = u then Some cb
      else name_callback_find mem rest f u)"

definition set_callbacks :: "addr \<Rightarrow> addr list \<Rightarrow> registry \<Rightarrow> registry" where
  \<comment> \<open>The assignment \<^verbatim>\<open>data->callbacks = l\<close>.\<close>
  "set_callbacks d l s = s\<lparr>data_mem := (data_mem s)(d := (data_mem s d)\<lparr>callbacks := l\<rparr>)\<rparr>"

definition name_data_add :: "string \<Rightarrow> addr \<Rightarrow> addr \<Rightarrow> add_env \<Rightarrow> registry \<Rightarrow> int \<times> registry" where
  \<comment> \<open>Returns \<^verbatim>\<open>first\<close>. The \<^verbatim>\<open>free(cb)\<close> of the two failure branches releases a
      block that no list holds; the stores keep no record of it.\<close>
  "name_data_add nm f u env s =
     (case malloc_cb env of
        None \<Rightarrow> (0, s)
      | Some cb \<Rightarrow>
          let s1 = s\<lparr>cb_mem := (cb_mem s)(cb := \<lparr>func = f, user_data = u\<rparr>)\<rparr> in
          (case name_data_find s1 nm of
             Some d \<Rightarrow>
               (0, set_callbacks d (slist_append (callbacks (data_mem s1 d)) cb) s1)
           | None \<Rightarrow>
               (case malloc_data env of
                  None \<Rightarrow> (0, s1)
                | Some d \<Rightarrow>
                    if \<not> strdup_ok env then (0, s1)
                    else
                      let s2 = s1\<lparr>data_mem := (data_mem s1)(d := \<lparr>name = nm, callbacks = []\<rparr>),
                                   name_listeners := slist_append (name_listeners s1) d\<rparr>
                      in (1, set_callbacks d (slist_append (callbacks (data_mem s2 d)) cb) s2))))"

definition name_data_remove :: "string \<Rightarrow> addr \<Rightarrow> addr \<Rightarrow> registry \<Rightarrow> registry" where
  \<comment> \<open>\<^verbatim>\<open>free(cb)\<close> and \<^verbatim>\<open>name_data_free(data)\<close> release blocks that were unlinked
      just before.\<close>
  "name_data_remove nm f u s =
     (case name_data_find s nm of
        None \<Rightarrow> s
      | Some d \<Rightarrow>
          (case name_callback_find (cb_mem s) (callbacks (data_mem s d)) f u of
             None \<Rightarrow> s
           | Some cb \<Rightarrow>
               let s1 = set_callbacks d (slist_remove (callbacks (data_mem s d)) cb) s in
               if callbacks (data_mem s1 d) = []
               then s1\<lparr>name_listeners := slist_remove (name_listeners s1) d\<rparr>
               else s1))"

subsection \<open>The two public functions\<close>

definition name_listener_add :: "string \<Rightarrow> string \<Rightarrow> addr \<Rightarrow> addr \<Rightarrow> add_env \<Rightarrow> registry \<Rightarrow> int \<times> registry" where
  "name_listener_add iface nm f u env s =
     (if \<not> name_listener_initialized s \<and> \<not> add_filter_ok env
      then (- 1, bus_call (Add_filter False) s)
      else
        let s0 = (if \<not> name_listener_initialized s
                  then (bus_call (Add_filter True) s)\<lparr>name_listener_initialized := True\<rparr>
                  else s);
            (first, s1) = name_data_add nm f u env s0
        in
          if first = 0 then (0, s1)
          else
            let s2 = bus_call (Add_match (match_string iface nm) (add_match_ok env)) s1 in
            if \<not> add_match_ok env then (- 1, name_data_remove nm f u s2)
            else (0, s2))"

definition name_listener_remove :: "string \<Rightarrow> string \<Rightarrow> addr \<Rightarrow> addr \<Rightarrow> bool \<Rightarrow> registry \<Rightarrow> int \<times> registry" where
  \<comment> \<open>\<open>remove_match_ok\<close> tells whether \<^verbatim>\<open>dbus_bus_remove_match\<close> left the error
      unset, should the call be made.\<close>
  "name_listener_remove iface nm f u remove_match_ok s =
     (case name_data_find s nm of
        None \<Rightarrow> (- 1, s)
      | Some d \<Rightarrow>
          (case name_callback_find (cb_mem s) (callbacks (data_mem s d)) f u of
             None \<Rightarrow> (- 1, s)
           | Some cb \<Rightarrow>
               let s1 = set_callbacks d (slist_remove (callbacks (data_mem s d)) cb) s in
               if callbacks (data_mem s1 d) \<noteq> [] then (0, s1)
               else
                 let s2 = bus_call (Remove_match (match_string iface nm) remove_match_ok) s1 in
                 if \<not> remove_match_ok then (- 1, s2)
                 else (0, name_data_remove nm f u s2)))"

subsection \<open>The message filter and the callbacks it calls\<close>

text \<open>
  \<^verbatim>\<open>name_exit_filter\<close> is the last static function of the file; it stands here,
  after the public functions, because the callbacks it calls may call them. A
  registered callback is code of the caller. While \<^verbatim>\<open>name_exit_filter\<close> is in its
  loop, the callback it has called may itself call \<^verbatim>\<open>name_listener_add\<close> and
  \<^verbatim>\<open>name_listener_remove\<close>, on the registry the loop is walking. What a callback does
  to this unit is a parameter of the model: the calls it makes, in order, each with
  the answers of the outside; they may depend on the registry at the moment the
  callback is entered.
\<close>

datatype nested_call =
    Nested_add string addr addr add_env
  | Nested_remove string addr addr bool

type_synonym callback_code = "addr \<Rightarrow> string \<Rightarrow> addr \<Rightarrow> registry \<Rightarrow> nested_call list"

fun nested_step :: "string \<Rightarrow> nested_call \<Rightarrow> registry \<Rightarrow> registry" where
  "nested_step iface (Nested_add nm f u env) s = snd (name_listener_add iface nm f u env s)"
| "nested_step iface (Nested_remove nm f u ok) s = snd (name_listener_remove iface nm f u ok s)"

fun nested_run :: "string \<Rightarrow> nested_call list \<Rightarrow> registry \<Rightarrow> registry" where
  "nested_run iface [] s = s"
| "nested_run iface (c # cs) s = nested_run iface cs (nested_step iface c s)"

text \<open>
  How a call ends: it returns; or the model stops it because the steps it was given
  are used up (the loop below need not end); or it reads a list node that the list
  module has unlinked and freed, after which the C program has no defined behaviour.
  In the last two cases the state is the one reached at that point.
\<close>

datatype 'a ending = Returns 'a | Out_of_fuel | Reads_freed_node

fun call_callbacks :: "nat \<Rightarrow> string \<Rightarrow> callback_code \<Rightarrow> string \<Rightarrow> addr \<Rightarrow> addr option \<Rightarrow> registry
    \<Rightarrow> unit ending \<times> registry" where
  \<comment> \<open>The loop \<^verbatim>\<open>for (l = data->callbacks; l != NULL; l = l->next)\<close> from node \<open>l\<close> on,
      with at most \<open>fuel\<close> callbacks called. The callback is called, runs its own calls
      into the unit, and only then is \<^verbatim>\<open>l->next\<close> read, from the list as the callback
      left it; a node that a nested remove has unlinked is freed.\<close>
  "call_callbacks fuel iface code nm d None s = (Returns (), s)"
| "call_callbacks 0 iface code nm d (Some cb) s = (Out_of_fuel, s)"
| "call_callbacks (Suc fuel) iface code nm d (Some cb) s =
     (let f = func (cb_mem s cb); u = user_data (cb_mem s cb);
          s1 = bus_call (Callback f nm u) s;
          s2 = nested_run iface (code f nm u s1) s1
      in if cb \<in> set (callbacks (data_mem s2 d))
         then call_callbacks fuel iface code nm d (slist_next (callbacks (data_mem s2 d)) cb) s2
         else (Reads_freed_node, s2))"

definition name_exit_filter :: "nat \<Rightarrow> string \<Rightarrow> callback_code \<Rightarrow> message \<Rightarrow> registry
    \<Rightarrow> DBusHandlerResult ending \<times> registry" where
  "name_exit_filter fuel iface code m s =
     (if \<not> dbus_message_is_signal m iface ''NameOwnerChanged''
      then (Returns NOT_YET_HANDLED, s)
      else
        (case dbus_message_get_args m of
           None \<Rightarrow> (Returns NOT_YET_HANDLED, s)
         | Some (nm, old, new) \<Rightarrow>
             if new \<noteq> [] then (Returns NOT_YET_HANDLED, s)
             else
               (case name_data_find s nm of
                  None \<Rightarrow> (Returns NOT_YET_HANDLED, s)
                | Some d \<Rightarrow>
                    (case call_callbacks fuel iface code nm d
                            (slist_first (callbacks (data_mem s d))) s of
                       (Returns r, s1) \<Rightarrow>
                         (Returns NOT_YET_HANDLED,
                          s1\<lparr>name_listeners := slist_remove (name_listeners s1) d\<rparr>)
                     | (Out_of_fuel, s1) \<Rightarrow> (Out_of_fuel, s1)
                     | (Reads_freed_node, s1) \<Rightarrow> (Reads_freed_node, s1)))))"

subsection \<open>What a caller can observe\<close>

definition registrations :: "registry \<Rightarrow> addr \<Rightarrow> (addr \<times> addr) list" where
  \<comment> \<open>The (callback, context) pairs of the subscription record at \<open>d\<close>, in list order.\<close>
  "registrations s d =
     map (\<lambda>cb. (func (cb_mem s cb), user_data (cb_mem s cb))) (callbacks (data_mem s d))"

definition subscription :: "registry \<Rightarrow> string \<Rightarrow> (addr \<times> addr) list option" where
  \<comment> \<open>The registrations of the subscription that \<^verbatim>\<open>name_data_find\<close> returns for a
      name; \<open>None\<close> when it returns NULL.\<close>
  "subscription s nm =
     (case name_data_find s nm of None \<Rightarrow> None | Some d \<Rightarrow> Some (registrations s d))"

definition subscriptions :: "registry \<Rightarrow> (string \<times> (addr \<times> addr) list) list" where
  "subscriptions s = map (\<lambda>d. (name (data_mem s d), registrations s d)) (name_listeners s)"

definition initial :: registry where
  \<comment> \<open>The globals as the C initialisers leave them; no call made yet.\<close>
  "initial = \<lparr>name_listener_initialized = False, name_listeners = [],
              data_mem = (\<lambda>_. \<lparr>name = [], callbacks = []\<rparr>),
              cb_mem = (\<lambda>_. \<lparr>func = 0, user_data = 0\<rparr>),
              bus_calls = []\<rparr>"

definition all_ok :: "addr \<Rightarrow> addr \<Rightarrow> add_env" where
  \<comment> \<open>The answers of a run in which nothing fails: \<^verbatim>\<open>malloc\<close> returns \<open>cb\<close> for the
      callback record and \<open>d\<close> for the name record.\<close>
  "all_ok cb d = \<lparr>malloc_cb = Some cb, malloc_data = Some d, strdup_ok = True,
                  add_filter_ok = True, add_match_ok = True\<rparr>"

definition DBUS_INTERFACE_DBUS :: string where
  \<comment> \<open>The value the bus library's headers give the macro; the functions above take the
      interface name as a parameter, the examples below pass this one.\<close>
  "DBUS_INTERFACE_DBUS = ''org.freedesktop.DBus''"

definition new_calls :: "registry \<Rightarrow> registry \<Rightarrow> bus_call list" where
  \<comment> \<open>The calls made between an earlier state and a later one.\<close>
  "new_calls s s' = drop (length (bus_calls s)) (bus_calls s')"

fun is_add_match :: "bus_call \<Rightarrow> bool" where
  "is_add_match (Add_match r ok) = True"
| "is_add_match c = False"

fun is_add_filter :: "bus_call \<Rightarrow> bool" where
  "is_add_filter (Add_filter ok) = True"
| "is_add_filter c = False"

definition one_listener :: registry where
  \<comment> \<open>The state after one successful \<^verbatim>\<open>name_listener_add\<close> from the start.\<close>
  "one_listener =
     snd (name_listener_add DBUS_INTERFACE_DBUS ''org.bluez.app'' 1 2 (all_ok 10 20) initial)"

subsection \<open>Allocation and well-formedness\<close>

definition cbs_in_use :: "registry \<Rightarrow> addr list" where
  \<comment> \<open>The callback records linked into some subscription of the registry.\<close>
  "cbs_in_use s = concat (map (\<lambda>d. callbacks (data_mem s d)) (name_listeners s))"

definition fresh :: "registry \<Rightarrow> add_env \<Rightarrow> bool" where
  \<comment> \<open>What \<^verbatim>\<open>malloc\<close> promises: a block it returns is none of the blocks in use. The
      unit frees a record only after unlinking it, so the linked records are in use.\<close>
  "fresh s env \<longleftrightarrow>
     (case malloc_cb env of None \<Rightarrow> True | Some cb \<Rightarrow> cb \<notin> set (cbs_in_use s)) \<and>
     (case malloc_data env of None \<Rightarrow> True | Some d \<Rightarrow> d \<notin> set (name_listeners s))"

definition names_unique :: "registry \<Rightarrow> bool" where
  \<comment> \<open>No two records of \<^verbatim>\<open>name_listeners\<close> carry the same name.\<close>
  "names_unique s \<longleftrightarrow> distinct (map (\<lambda>d. name (data_mem s d)) (name_listeners s))"

definition same_for :: "string \<Rightarrow> registry \<Rightarrow> registry \<Rightarrow> bool" where
  \<comment> \<open>A name has the same subscription record, with the same registrations, in both
      states.\<close>
  "same_for nm s s' \<longleftrightarrow>
     name_data_find s' nm = name_data_find s nm \<and> subscription s' nm = subscription s nm"

subsection \<open>Sequences of calls\<close>

datatype call =
    Add string addr addr add_env
  | Remove string addr addr bool
  | Deliver message

fun returns :: "nat \<Rightarrow> string \<Rightarrow> callback_code \<Rightarrow> call \<Rightarrow> registry \<Rightarrow> bool" where
  \<comment> \<open>Whether the call comes back to its caller.\<close>
  "returns fuel iface code (Deliver m) s =
     (case fst (name_exit_filter fuel iface code m s) of Returns r \<Rightarrow> True | _ \<Rightarrow> False)"
| "returns fuel iface code c s = True"

fun step :: "nat \<Rightarrow> string \<Rightarrow> callback_code \<Rightarrow> call \<Rightarrow> registry \<Rightarrow> registry" where
  "step fuel iface code (Add nm f u env) s = snd (name_listener_add iface nm f u env s)"
| "step fuel iface code (Remove nm f u ok) s = snd (name_listener_remove iface nm f u ok s)"
| "step fuel iface code (Deliver m) s = snd (name_exit_filter fuel iface code m s)"

fun run :: "nat \<Rightarrow> string \<Rightarrow> callback_code \<Rightarrow> call list \<Rightarrow> registry \<Rightarrow> registry" where
  \<comment> \<open>The calls of a list in order, each delivery with \<open>fuel\<close> steps for its loop; a
      call that does not return is the last one made.\<close>
  "run fuel iface code [] s = s"
| "run fuel iface code (c # cs) s =
     (if returns fuel iface code c s then run fuel iface code cs (step fuel iface code c s)
      else step fuel iface code c s)"

subsection \<open>The match rule as the spec words it\<close>

definition match_rule_text :: "string \<Rightarrow> string \<Rightarrow> string" where
  \<comment> \<open>The filter text in the spec's words, whole:
      \<^verbatim>\<open>interface=<bus-management-interface>,member=NameOwnerChanged,arg0=<name>\<close>.\<close>
  "match_rule_text iface nm = ''interface='' @ iface @ '',member=NameOwnerChanged,arg0='' @ nm"

definition long_name :: string where
  \<comment> \<open>A well-formed bus name of 68 characters (the bus allows 255).\<close>
  "long_name = ''org.bluez.service.with.a.very.long.well.known.bus.name.of.68.chars.x''"

subsection \<open>Several adds for one name\<close>

fun add_all :: "string \<Rightarrow> string \<Rightarrow> (addr \<times> addr \<times> add_env) list \<Rightarrow> registry
    \<Rightarrow> int list \<times> registry" where
  \<comment> \<open>The calls \<^verbatim>\<open>name_listener_add(conn, nm, f, u)\<close> of a list, in order, each with its
      answers; returns the values returned and the last state.\<close>
  "add_all iface nm [] s = ([], s)"
| "add_all iface nm ((f, u, env) # rest) s =
     (let (r, s1) = name_listener_add iface nm f u env s;
          (rs, s') = add_all iface nm rest s1
      in (r # rs, s'))"

subsection \<open>The filter and the match rules in the list of calls\<close>

definition attached_before_match :: "bus_call list \<Rightarrow> bool" where
  \<comment> \<open>Every installation of a match rule comes after a successful attach of the filter.\<close>
  "attached_before_match calls \<longleftrightarrow>
     (\<forall>pre rule ok post. calls = pre @ Add_match rule ok # post \<longrightarrow> Add_filter True \<in> set pre)"

definition attach_inv :: "registry \<Rightarrow> bool" where
  \<comment> \<open>What every run keeps about the flag and the calls made.\<close>
  "attach_inv s \<longleftrightarrow>
     count_list (bus_calls s) (Add_filter True) \<le> 1
     \<and> (name_listener_initialized s \<longleftrightarrow> Add_filter True \<in> set (bus_calls s))
     \<and> attached_before_match (bus_calls s)
     \<and> (name_listeners s \<noteq> [] \<longrightarrow> name_listener_initialized s)"

definition stays_attached :: "registry \<Rightarrow> registry \<Rightarrow> bool" where
  \<comment> \<open>From \<open>s\<close> to \<open>s'\<close> the flag is set and no attach of the filter was tried.\<close>
  "stays_attached s s' \<longleftrightarrow>
     name_listener_initialized s' \<and>
     filter is_add_filter (bus_calls s') = filter is_add_filter (bus_calls s)"

subsection \<open>Example states and messages\<close>


definition owner_lost :: "string \<Rightarrow> message" where
  \<comment> \<open>The signal the bus sends when the owner \<^verbatim>\<open>:1.7\<close> of a name goes away.\<close>
  "owner_lost nm =
     \<lparr>msg_signal = True, msg_interface = DBUS_INTERFACE_DBUS,
      msg_member = ''NameOwnerChanged'',
      msg_args = [Arg_string nm, Arg_string '':1.7'', Arg_string []]\<rparr>"


definition resubscribes :: callback_code where
  \<comment> \<open>A callback that goes on watching: it adds itself again for the name it was called
      with. \<^verbatim>\<open>malloc\<close> answers with a block not yet handed out.\<close>
  "resubscribes f nm u s = [Nested_add nm f u (all_ok (100 + length (bus_calls s)) 0)]"

definition unsubscribes :: callback_code where
  \<comment> \<open>A callback that is done after one call: it removes its own registration.\<close>
  "unsubscribes f nm u s = [Nested_remove nm f u True]"

definition hands_over :: callback_code where
  \<comment> \<open>The callback at address 1 registers another callback for the name; \<^verbatim>\<open>malloc\<close>
      answers with block 11.\<close>
  "hands_over f nm u s = (if f = 1 then [Nested_add nm 3 4 (all_ok 11 0)] else [])"

definition twice_registered :: registry where
  \<comment> \<open>The same (name, callback, context) registered twice.\<close>
  "twice_registered =
     snd (name_listener_add DBUS_INTERFACE_DBUS ''org.bluez.app'' 1 2 (all_ok 11 21) one_listener)"

definition three_calls :: "call list" where
  \<comment> \<open>A first add whose attach fails, then two successful adds.\<close>
  "three_calls =
     [Add ''org.bluez.app'' 1 2 ((all_ok 10 20)\<lparr>add_filter_ok := False\<rparr>),
      Add ''org.bluez.app'' 1 2 (all_ok 10 20),
      Add ''org.bluez.other'' 3 4 (all_ok 11 21)]"

definition two_more_calls :: "call list" where
  \<comment> \<open>The first name loses its owner and is added again.\<close>
  "two_more_calls =
     [Deliver (owner_lost ''org.bluez.app''),
      Add ''org.bluez.app'' 1 2 (all_ok 12 22)]"

section \<open>Evaluating the functions\<close>

lemmas registry_defs =
  name_listener_add_def name_listener_remove_def name_data_add_def name_data_remove_def
  name_exit_filter_def name_data_find_def set_callbacks_def slist_append_def
  slist_remove_def bus_call_def subscriptions_def subscription_def registrations_def
  new_calls_def all_ok_def initial_def fresh_def cbs_in_use_def names_unique_def
  same_for_def owner_lost_def dbus_message_get_args_def dbus_message_is_signal_def

lemma one_listener_eq:
  "one_listener =
     \<lparr>name_listener_initialized = True, name_listeners = [20],
      data_mem = (\<lambda>_. \<lparr>name = [], callbacks = []\<rparr>)(20 := \<lparr>name = ''org.bluez.app'', callbacks = [10]\<rparr>),
      cb_mem = (\<lambda>_. \<lparr>func = 0, user_data = 0\<rparr>)(10 := \<lparr>func = 1, user_data = 2\<rparr>),
      bus_calls = [Add_filter True,
                   Add_match (match_string DBUS_INTERFACE_DBUS ''org.bluez.app'') True]\<rparr>"
  by (simp add: one_listener_def registry_defs)


lemma twice_registered_eq:
  "twice_registered =
     \<lparr>name_listener_initialized = True, name_listeners = [20],
      data_mem = (\<lambda>_. \<lparr>name = [], callbacks = []\<rparr>)
        (20 := \<lparr>name = ''org.bluez.app'', callbacks = [10, 11]\<rparr>),
      cb_mem = (\<lambda>_. \<lparr>func = 0, user_data = 0\<rparr>)
        (10 := \<lparr>func = 1, user_data = 2\<rparr>, 11 := \<lparr>func = 1, user_data = 2\<rparr>),
      bus_calls = [Add_filter True,
                   Add_match (match_string DBUS_INTERFACE_DBUS ''org.bluez.app'') True]\<rparr>"
  by (simp add: twice_registered_def one_listener_eq registry_defs)

section \<open>Allocation failure in add\<close>

text \<open>
  C4. The claim: when an allocation fails during add, \<^verbatim>\<open>name_listener_add\<close> returns -1
  and creates nothing. The code creates nothing, but it returns 0, the value of a
  successful call: \<^verbatim>\<open>name_data_add\<close> leaves through \<^verbatim>\<open>out\<close> with \<^verbatim>\<open>first\<close> still 0,
  which \<^verbatim>\<open>name_listener_add\<close> reads as "not the first registration for the name".
  Below, each of the three allocations fails in turn on the first call ever made.
\<close>

theorem add_allocation_failure_returns_0:
  "fst (name_listener_add DBUS_INTERFACE_DBUS ''org.bluez.app'' 1 2
          ((all_ok 10 20)\<lparr>malloc_cb := None\<rparr>) initial) = 0
   \<and> fst (name_listener_add DBUS_INTERFACE_DBUS ''org.bluez.app'' 1 2
          ((all_ok 10 20)\<lparr>malloc_data := None\<rparr>) initial) = 0
   \<and> fst (name_listener_add DBUS_INTERFACE_DBUS ''org.bluez.app'' 1 2
          ((all_ok 10 20)\<lparr>strdup_ok := False\<rparr>) initial) = 0
   \<and> subscriptions (snd (name_listener_add DBUS_INTERFACE_DBUS ''org.bluez.app'' 1 2
          ((all_ok 10 20)\<lparr>malloc_cb := None\<rparr>) initial)) = []
   \<and> bus_calls (snd (name_listener_add DBUS_INTERFACE_DBUS ''org.bluez.app'' 1 2
          ((all_ok 10 20)\<lparr>malloc_cb := None\<rparr>) initial)) = [Add_filter True]"
  by (simp add: registry_defs)

section \<open>The search loops\<close>

lemma find_from_SomeD:
  "name_data_find_from mem l nm = Some d \<Longrightarrow> d \<in> set l \<and> name (mem d) = nm"
  by (induction l) (auto split: if_splits)

lemma find_from_None_iff:
  "name_data_find_from mem l nm = None \<longleftrightarrow> (\<forall>d\<in>set l. name (mem d) \<noteq> nm)"
  by (induction l) auto

lemma find_from_cong:
  "(\<And>d. d \<in> set l \<Longrightarrow> name (mem' d) = name (mem d)) \<Longrightarrow>
   name_data_find_from mem' l nm = name_data_find_from mem l nm"
  by (induction l) auto

lemma find_from_append:
  "name_data_find_from mem (l @ l') nm =
     (case name_data_find_from mem l nm of
        Some d \<Rightarrow> Some d
      | None \<Rightarrow> name_data_find_from mem l' nm)"
  by (induction l) auto


lemma find_from_remove1_found:
  "distinct (map (\<lambda>d. name (mem d)) l) \<Longrightarrow> name_data_find_from mem l nm = Some d \<Longrightarrow>
   name_data_find_from mem (remove1 d l) nm = None"
proof -
  assume dis: "distinct (map (\<lambda>d. name (mem d)) l)"
    and found: "name_data_find_from mem l nm = Some d"
  from found have d: "d \<in> set l" "name (mem d) = nm"
    by (auto dest: find_from_SomeD)
  from dis have "distinct l" and inj: "inj_on (\<lambda>d. name (mem d)) (set l)"
    by (auto simp: distinct_map)
  then have "\<forall>x\<in>set (remove1 d l). name (mem x) \<noteq> nm"
    using d by (auto simp: inj_on_def)
  then show ?thesis
    by (simp add: find_from_None_iff)
qed

lemma callback_find_SomeD:
  "name_callback_find mem l f u = Some cb \<Longrightarrow>
   cb \<in> set l \<and> func (mem cb) = f \<and> user_data (mem cb) = u"
  by (induction l) (auto split: if_splits)

lemma callback_find_None_iff:
  "name_callback_find mem l f u = None \<longleftrightarrow>
   (\<forall>cb\<in>set l. (func (mem cb), user_data (mem cb)) \<noteq> (f, u))"
  by (induction l) auto

lemma callback_find_remove1:
  "name_callback_find mem l f u = Some cb \<Longrightarrow>
   map (\<lambda>c. (func (mem c), user_data (mem c))) (remove1 cb l) =
   remove1 (f, u) (map (\<lambda>c. (func (mem c), user_data (mem c))) l)"
  by (induction l) (auto split: if_splits dest: callback_find_SomeD)

lemma callback_find_cong:
  "(\<And>c. c \<in> set l \<Longrightarrow> mem' c = mem c) \<Longrightarrow>
   name_callback_find mem' l f u = name_callback_find mem l f u"
  by (induction l) auto


lemma name_data_find_cong:
  "name_listeners s' = name_listeners s \<Longrightarrow>
   (\<And>x. name (data_mem s' x) = name (data_mem s x)) \<Longrightarrow>
   name_data_find s' nm = name_data_find s nm"
  unfolding name_data_find_def by simp (rule find_from_cong, simp)

section \<open>Removing the last registration\<close>

text \<open>
  What \<^verbatim>\<open>name_listener_remove\<close> does when the registration it finds is the only one
  of the name: it empties the list, calls the bus, and returns; the record of the name
  stays linked whether the bus call succeeds or not.
\<close>

lemma name_listener_remove_last:
  assumes "name_data_find s nm = Some d"
    and "name_callback_find (cb_mem s) (callbacks (data_mem s d)) f u = Some cb"
    and "remove1 cb (callbacks (data_mem s d)) = []"
  shows "name_listener_remove iface nm f u ok s =
     (if ok then 0 else - 1,
      s\<lparr>data_mem := (data_mem s)(d := (data_mem s d)\<lparr>callbacks := []\<rparr>),
        bus_calls := bus_calls s @ [Remove_match (match_string iface nm) ok]\<rparr>)"
proof -
  define s2 where "s2 = s\<lparr>data_mem := (data_mem s)(d := (data_mem s d)\<lparr>callbacks := []\<rparr>),
        bus_calls := bus_calls s @ [Remove_match (match_string iface nm) ok]\<rparr>"
  have "name_data_find s2 nm = name_data_find s nm"
    by (rule name_data_find_cong) (simp_all add: s2_def)
  then have "name_data_remove nm f u s2 = s2"
    using assms(1) by (simp add: name_data_remove_def) (simp add: s2_def)
  then show ?thesis
    using assms
    by (cases ok)
      (simp_all add: name_listener_remove_def Let_def set_callbacks_def slist_remove_def
        bus_call_def s2_def)
qed

text \<open>
  C3. The claim: no subscription with an empty callback list outlives an operation.
  \<^verbatim>\<open>name_listener_remove\<close> unlinks the callback record itself before it calls the
  bus, so the \<^verbatim>\<open>name_data_remove\<close> it calls afterwards finds no callback and returns
  before the lines that unlink an empty subscription. After one add and one remove,
  both successful, the name's record is still in \<^verbatim>\<open>name_listeners\<close> with no callback;
  the next add for the name finds it, is not the first, and installs no match rule
  though the bus has none left.
\<close>

theorem remove_last_leaves_empty_subscription:
  "name_listener_remove DBUS_INTERFACE_DBUS ''org.bluez.app'' 1 2 True one_listener =
     (0, one_listener\<lparr>
           data_mem := (data_mem one_listener)(20 := \<lparr>name = ''org.bluez.app'', callbacks = []\<rparr>),
           bus_calls := bus_calls one_listener @
             [Remove_match (match_string DBUS_INTERFACE_DBUS ''org.bluez.app'') True]\<rparr>)
   \<and> subscriptions (snd (name_listener_remove DBUS_INTERFACE_DBUS ''org.bluez.app'' 1 2 True
        one_listener)) = [(''org.bluez.app'', [])]
   \<and> new_calls
        (snd (name_listener_remove DBUS_INTERFACE_DBUS ''org.bluez.app'' 1 2 True one_listener))
        (snd (name_listener_add DBUS_INTERFACE_DBUS ''org.bluez.app'' 3 4 (all_ok 11 21)
           (snd (name_listener_remove DBUS_INTERFACE_DBUS ''org.bluez.app'' 1 2 True
              one_listener)))) = []"
  by (simp add: one_listener_eq registry_defs)

text \<open>
  C2. The claim: when the bus reports an error on removing the match rule, remove
  returns -1 and the registry is as before, the registration still there for a later
  remove to find. The code returns -1, and the name's record stays, but the
  registration was unlinked before the bus call and is not put back: the later remove
  fails with "no matching callback" and never reaches the bus.
\<close>

theorem remove_bus_error_loses_registration:
  "fst (name_listener_remove DBUS_INTERFACE_DBUS ''org.bluez.app'' 1 2 False one_listener) = - 1
   \<and> subscription one_listener ''org.bluez.app'' = Some [(1, 2)]
   \<and> subscription (snd (name_listener_remove DBUS_INTERFACE_DBUS ''org.bluez.app'' 1 2 False
        one_listener)) ''org.bluez.app'' = Some []
   \<and> name_listener_remove DBUS_INTERFACE_DBUS ''org.bluez.app'' 1 2 True
        (snd (name_listener_remove DBUS_INTERFACE_DBUS ''org.bluez.app'' 1 2 False one_listener)) =
      (- 1, snd (name_listener_remove DBUS_INTERFACE_DBUS ''org.bluez.app'' 1 2 False one_listener))"
  by (simp add: one_listener_eq registry_defs)

section \<open>What an operation leaves alone\<close>











lemma fresh_cong:
  "name_listeners s' = name_listeners s \<Longrightarrow> data_mem s' = data_mem s \<Longrightarrow>
   fresh s' env = fresh s env"
  by (simp add: fresh_def cbs_in_use_def split: option.splits)












section \<open>Names stay unique\<close>

lemma distinct_map_remove1: "distinct (map g l) \<Longrightarrow> distinct (map g (remove1 x l))"
proof -
  assume "distinct (map g l)"
  then have "distinct l" and "inj_on g (set l)"
    by (auto simp: distinct_map)
  moreover have "set (remove1 x l) \<subseteq> set l"
    by (rule set_remove1_subset)
  ultimately show ?thesis
    by (simp add: distinct_map inj_on_subset)
qed

lemma names_set_callbacks:
  "(\<lambda>x. name (data_mem (set_callbacks d l s) x)) = (\<lambda>x. name (data_mem s x))"
  by (rule ext) (simp add: set_callbacks_def)

lemma names_unique_set_callbacks:
  "names_unique (set_callbacks d l s) = names_unique s"
  by (simp add: names_unique_def names_set_callbacks) (simp add: set_callbacks_def)

lemma names_unique_unlink:
  "names_unique s \<Longrightarrow> names_unique (s\<lparr>name_listeners := slist_remove (name_listeners s) d\<rparr>)"
  by (simp add: names_unique_def slist_remove_def distinct_map_remove1)

lemma names_unique_name_data_remove:
  "names_unique s \<Longrightarrow> names_unique (name_data_remove nm f u s)"
  by (simp add: name_data_remove_def Let_def names_unique_set_callbacks names_unique_unlink
      split: option.splits)

lemma names_unique_bus_call: "names_unique (bus_call c s) = names_unique s"
  by (simp add: names_unique_def bus_call_def)

lemma names_unique_link:
  assumes "names_unique s" and "d \<notin> set (name_listeners s)" and "name_data_find s nm = None"
  shows "names_unique (s\<lparr>data_mem := (data_mem s)(d := \<lparr>name = nm, callbacks = l\<rparr>),
                         name_listeners := slist_append (name_listeners s) d\<rparr>)"
proof -
  define mem' where "mem' = (data_mem s)(d := \<lparr>name = nm, callbacks = l\<rparr>)"
  have eq: "map (\<lambda>x. name (mem' x)) (name_listeners s)
        = map (\<lambda>x. name (data_mem s x)) (name_listeners s)"
    using assms(2) by (intro map_cong) (auto simp: mem'_def)
  have "nm \<notin> set (map (\<lambda>x. name (data_mem s x)) (name_listeners s))"
    using assms(3) by (auto simp: name_data_find_def find_from_None_iff)
  moreover have "name (mem' d) = nm"
    by (simp add: mem'_def)
  ultimately have "distinct (map (\<lambda>x. name (mem' x)) (name_listeners s @ [d]))"
    using assms(1) by (simp add: names_unique_def eq)
  then show ?thesis
    by (simp add: names_unique_def slist_append_def mem'_def)
qed

lemma names_unique_name_data_add:
  assumes "names_unique s" and "fresh s env"
  shows "names_unique (snd (name_data_add nm f u env s))"
proof (cases "malloc_cb env")
  case None
  then show ?thesis using assms by (simp add: name_data_add_def)
next
  case (Some cb)
  define s1 where "s1 = s\<lparr>cb_mem := (cb_mem s)(cb := \<lparr>func = f, user_data = u\<rparr>)\<rparr>"
  have s1: "names_unique s1"
    using assms(1) by (simp add: names_unique_def s1_def)
  show ?thesis
  proof (cases "name_data_find s1 nm")
    case found: (Some d)
    then show ?thesis
      using Some s1
      by (simp add: name_data_add_def s1_def [symmetric] names_unique_set_callbacks)
  next
    case None
    have link: "names_unique (s1\<lparr>data_mem := (data_mem s1)(d := \<lparr>name = nm, callbacks = []\<rparr>),
                         name_listeners := slist_append (name_listeners s1) d\<rparr>)"
      if "malloc_data env = Some d" for d
    proof (rule names_unique_link [OF s1 _ None])
      show "d \<notin> set (name_listeners s1)"
        using that assms(2) by (simp add: fresh_def s1_def)
    qed
    show ?thesis
      using Some None s1 link
      by (simp add: name_data_add_def s1_def [symmetric] Let_def names_unique_set_callbacks
          split: option.splits)
  qed
qed

lemma names_unique_name_listener_add:
  assumes "names_unique s" and "fresh s env"
  shows "names_unique (snd (name_listener_add iface nm f u env s))"
proof -
  define s0 where "s0 = (if \<not> name_listener_initialized s
                  then (bus_call (Add_filter True) s)\<lparr>name_listener_initialized := True\<rparr>
                  else s)"
  have s0: "names_unique s0"
    using assms(1) by (simp add: s0_def names_unique_def bus_call_def)
  have "fresh s0 env = fresh s env"
    by (rule fresh_cong) (simp_all add: s0_def bus_call_def)
  with assms(2) have "fresh s0 env"
    by simp
  with s0 have s1: "names_unique (snd (name_data_add nm f u env s0))"
    by (rule names_unique_name_data_add)
  obtain first s1' where add: "name_data_add nm f u env s0 = (first, s1')"
    by (cases "name_data_add nm f u env s0")
  with s1 have s1': "names_unique s1'"
    by simp
  then have s3: "names_unique (name_data_remove nm f u (bus_call c s1'))" for c
    by (simp add: names_unique_name_data_remove names_unique_bus_call)
  show ?thesis
    using assms(1) s1' s3 add
    by (simp add: name_listener_add_def s0_def [symmetric] Let_def names_unique_bus_call)
qed

lemma names_unique_name_listener_remove:
  assumes "names_unique s"
  shows "names_unique (snd (name_listener_remove iface nm f u ok s))"
  using assms
  by (simp add: name_listener_remove_def Let_def names_unique_bus_call
      names_unique_set_callbacks names_unique_name_data_remove split: option.splits)

lemma names_unique_initial: "names_unique initial"
  by (simp add: names_unique_def initial_def)

section \<open>The cases of add\<close>

lemma name_data_find_simps [simp]:
  "name_data_find (s\<lparr>cb_mem := c\<rparr>) nm = name_data_find s nm"
  "name_data_find (s\<lparr>bus_calls := b\<rparr>) nm = name_data_find s nm"
  "name_data_find (s\<lparr>name_listener_initialized := i\<rparr>) nm = name_data_find s nm"
  "name_data_find (bus_call e s) nm = name_data_find s nm"
  by (simp_all add: name_data_find_def bus_call_def)

lemma name_data_add_first:
  assumes "fst (name_data_add nm f u env s) \<noteq> 0"
  obtains cb d where "malloc_cb env = Some cb" and "malloc_data env = Some d"
    and "strdup_ok env" and "name_data_find s nm = None"
    and "name_data_add nm f u env s =
      (1, s\<lparr>cb_mem := (cb_mem s)(cb := \<lparr>func = f, user_data = u\<rparr>),
            data_mem := (data_mem s)(d := \<lparr>name = nm, callbacks = [cb]\<rparr>),
            name_listeners := name_listeners s @ [d]\<rparr>)"
  using assms
  by (auto simp: name_data_add_def Let_def set_callbacks_def slist_append_def
      split: option.splits if_splits)

lemma name_data_add_bus_calls:
  "bus_calls (snd (name_data_add nm f u env s)) = bus_calls s"
  by (simp add: name_data_add_def Let_def set_callbacks_def split: option.splits)

lemma name_data_add_initialized:
  "name_listener_initialized (snd (name_data_add nm f u env s)) = name_listener_initialized s"
  by (simp add: name_data_add_def Let_def set_callbacks_def split: option.splits)

lemma name_data_remove_bus_calls:
  "bus_calls (name_data_remove nm f u s) = bus_calls s"
  by (simp add: name_data_remove_def Let_def set_callbacks_def split: option.splits)

lemma name_data_remove_initialized:
  "name_listener_initialized (name_data_remove nm f u s) = name_listener_initialized s"
  by (simp add: name_data_remove_def Let_def set_callbacks_def split: option.splits)

lemma name_data_add_fst_cong:
  "name_listeners s' = name_listeners s \<Longrightarrow> data_mem s' = data_mem s \<Longrightarrow>
   fst (name_data_add nm f u env s') = fst (name_data_add nm f u env s)"
  by (simp add: name_data_add_def Let_def name_data_find_def split: option.splits)

text \<open>
  \<^verbatim>\<open>name_listener_add\<close> by cases of the initialisation flag: once the filter is
  attached, the call goes on as in an initialised registry.
\<close>

lemma name_listener_add_attach_fails:
  "\<not> name_listener_initialized s \<Longrightarrow> \<not> add_filter_ok env \<Longrightarrow>
   name_listener_add iface nm f u env s = (- 1, bus_call (Add_filter False) s)"
  by (simp add: name_listener_add_def)

lemma name_listener_add_attach:
  "\<not> name_listener_initialized s \<Longrightarrow> add_filter_ok env \<Longrightarrow>
   name_listener_add iface nm f u env s =
   name_listener_add iface nm f u env
     ((bus_call (Add_filter True) s)\<lparr>name_listener_initialized := True\<rparr>)"
  by (simp add: name_listener_add_def)

lemma name_listener_add_attached:
  "name_listener_initialized s \<Longrightarrow>
   name_listener_add iface nm f u env s =
     (if fst (name_data_add nm f u env s) = 0 then (0, snd (name_data_add nm f u env s))
      else if add_match_ok env
      then (0, bus_call (Add_match (match_string iface nm) True)
                 (snd (name_data_add nm f u env s)))
      else (- 1, name_data_remove nm f u
                 (bus_call (Add_match (match_string iface nm) False)
                    (snd (name_data_add nm f u env s)))))"
  by (simp add: name_listener_add_def Let_def split: prod.splits)

text \<open>The calls one add makes.\<close>

lemma name_listener_add_calls_attached:
  assumes "name_listener_initialized s"
  shows "bus_calls (snd (name_listener_add iface nm f u env s)) =
     bus_calls s @
     (if fst (name_data_add nm f u env s) \<noteq> 0
      then [Add_match (match_string iface nm) (add_match_ok env)] else [])"
  using assms
  by (simp add: name_listener_add_attached name_data_add_bus_calls
      name_data_remove_bus_calls bus_call_def)

lemma name_listener_add_calls:
  "bus_calls (snd (name_listener_add iface nm f u env s)) =
     bus_calls s @
     (if name_listener_initialized s then [] else [Add_filter (add_filter_ok env)]) @
     (if (name_listener_initialized s \<or> add_filter_ok env) \<and>
         fst (name_data_add nm f u env s) \<noteq> 0
      then [Add_match (match_string iface nm) (add_match_ok env)] else [])"
proof (cases "name_listener_initialized s")
  case True
  then show ?thesis
    by (simp add: name_listener_add_calls_attached)
next
  case False
  show ?thesis
  proof (cases "add_filter_ok env")
    case ok: True
    have "fst (name_data_add nm f u env
               ((bus_call (Add_filter True) s)\<lparr>name_listener_initialized := True\<rparr>)) =
          fst (name_data_add nm f u env s)"
      by (rule name_data_add_fst_cong) (simp_all add: bus_call_def)
    then show ?thesis
      using False ok
      by (simp add: name_listener_add_attach name_listener_add_calls_attached)
        (simp add: bus_call_def)
  next
    case fails: False
    then show ?thesis
      using False by (simp add: name_listener_add_attach_fails bus_call_def)
  qed
qed

lemma cbs_in_useI:
  "d \<in> set (name_listeners s) \<Longrightarrow> c \<in> set (callbacks (data_mem s d)) \<Longrightarrow>
   c \<in> set (cbs_in_use s)"
  by (auto simp: cbs_in_use_def)

lemma same_registry:
  assumes l: "name_listeners s' = name_listeners s"
    and d: "\<And>x. x \<in> set (name_listeners s) \<Longrightarrow> data_mem s' x = data_mem s x"
    and c: "\<And>x. x \<in> set (cbs_in_use s) \<Longrightarrow> cb_mem s' x = cb_mem s x"
  shows "subscriptions s' = subscriptions s" and "same_for nm s s'"
proof -
  have regs: "registrations s' x = registrations s x" if "x \<in> set (name_listeners s)" for x
    using that d [OF that] c [OF cbs_in_useI [OF that]] by (simp add: registrations_def)
  show "subscriptions s' = subscriptions s"
    using l d regs by (simp add: subscriptions_def)
  have find: "name_data_find s' nm = name_data_find s nm"
    unfolding name_data_find_def l by (rule find_from_cong) (simp add: d)
  show "same_for nm s s'"
    using find regs
    by (auto simp: same_for_def subscription_def name_data_find_def
        dest: find_from_SomeD split: option.splits)
qed

lemma rollback_of_first:
  assumes d: "d \<notin> set (name_listeners s)" and none: "name_data_find s nm = None"
  shows "name_data_remove nm f u
       (bus_call e (s\<lparr>cb_mem := (cb_mem s)(cb := \<lparr>func = f, user_data = u\<rparr>),
            data_mem := (data_mem s)(d := \<lparr>name = nm, callbacks = [cb]\<rparr>),
            name_listeners := name_listeners s @ [d]\<rparr>)) =
     s\<lparr>cb_mem := (cb_mem s)(cb := \<lparr>func = f, user_data = u\<rparr>),
       data_mem := (data_mem s)(d := \<lparr>name = nm, callbacks = []\<rparr>),
       bus_calls := bus_calls s @ [e]\<rparr>"
proof -
  define s1 where "s1 = s\<lparr>cb_mem := (cb_mem s)(cb := \<lparr>func = f, user_data = u\<rparr>),
            data_mem := (data_mem s)(d := \<lparr>name = nm, callbacks = [cb]\<rparr>),
            name_listeners := name_listeners s @ [d]\<rparr>"
  have "name_data_find_from ((data_mem s)(d := \<lparr>name = nm, callbacks = [cb]\<rparr>))
          (name_listeners s) nm = name_data_find_from (data_mem s) (name_listeners s) nm"
    using d by (intro find_from_cong) auto
  then have find: "name_data_find (bus_call e s1) nm = Some d"
    using none by (simp add: s1_def name_data_find_def find_from_append bus_call_def)
  have rm: "remove1 d (name_listeners s @ [d]) = name_listeners s"
    using d by (simp add: remove1_append)
  have "name_data_remove nm f u (bus_call e s1) =
     s\<lparr>cb_mem := (cb_mem s)(cb := \<lparr>func = f, user_data = u\<rparr>),
       data_mem := (data_mem s)(d := \<lparr>name = nm, callbacks = []\<rparr>),
       bus_calls := bus_calls s @ [e]\<rparr>"
    using find rm
    by (simp add: name_data_remove_def Let_def set_callbacks_def slist_remove_def
        s1_def bus_call_def)
  then show ?thesis
    by (simp add: s1_def)
qed

text \<open>
  C5. When \<^verbatim>\<open>dbus_bus_add_match\<close> sets the error during an add, the add returns -1 and
  the callback record and the subscription record it had linked are unlinked again:
  \<^verbatim>\<open>name_listeners\<close> is the list it was, every subscription has the name and the
  registrations it had, and every name \<open>nm'\<close> (the added one too) is found as before.
  The match rule is only installed for a subscription this call created. The
  initialisation flag is not part of the rollback: it is set after the call, and a
  filter attached by this call stays attached. The blocks \<^verbatim>\<open>malloc\<close> returned are
  fresh.
\<close>

theorem failed_install_rolls_back:
  assumes "fresh s env"
    and "Add_match rule False
           \<in> set (new_calls s (snd (name_listener_add iface nm f u env s)))"
  shows "fst (name_listener_add iface nm f u env s) = - 1
       \<and> name_listeners (snd (name_listener_add iface nm f u env s)) = name_listeners s
       \<and> subscriptions (snd (name_listener_add iface nm f u env s)) = subscriptions s
       \<and> same_for nm' s (snd (name_listener_add iface nm f u env s))
       \<and> name_listener_initialized (snd (name_listener_add iface nm f u env s))"
proof -
  from assms(2) have path: "name_listener_initialized s \<or> add_filter_ok env"
    "fst (name_data_add nm f u env s) \<noteq> 0" "\<not> add_match_ok env"
    by (auto simp: new_calls_def name_listener_add_calls split: if_splits)
  define s0 where "s0 = (if name_listener_initialized s then s
     else (bus_call (Add_filter True) s)\<lparr>name_listener_initialized := True\<rparr>)"
  have s0: "name_listener_initialized s0" "name_listeners s0 = name_listeners s"
    "data_mem s0 = data_mem s" "cb_mem s0 = cb_mem s"
    using path(1) by (auto simp: s0_def bus_call_def)
  have add0: "name_listener_add iface nm f u env s = name_listener_add iface nm f u env s0"
    using path(1) by (auto simp: s0_def name_listener_add_attach)
  have "fst (name_data_add nm f u env s0) = fst (name_data_add nm f u env s)"
    by (rule name_data_add_fst_cong) (simp_all add: s0)
  with path(2) have "fst (name_data_add nm f u env s0) \<noteq> 0"
    by simp
  then obtain cb d where alloc: "malloc_cb env = Some cb" "malloc_data env = Some d"
    and none: "name_data_find s0 nm = None"
    and add: "name_data_add nm f u env s0 =
      (1, s0\<lparr>cb_mem := (cb_mem s0)(cb := \<lparr>func = f, user_data = u\<rparr>),
            data_mem := (data_mem s0)(d := \<lparr>name = nm, callbacks = [cb]\<rparr>),
            name_listeners := name_listeners s0 @ [d]\<rparr>)"
    by (rule name_data_add_first)
  have fr: "cb \<notin> set (cbs_in_use s)" "d \<notin> set (name_listeners s)"
    using assms(1) alloc by (simp_all add: fresh_def)
  then have d0: "d \<notin> set (name_listeners s0)"
    by (simp add: s0)
  define s' where "s' = s0\<lparr>cb_mem := (cb_mem s0)(cb := \<lparr>func = f, user_data = u\<rparr>),
       data_mem := (data_mem s0)(d := \<lparr>name = nm, callbacks = []\<rparr>),
       bus_calls := bus_calls s0 @ [Add_match (match_string iface nm) False]\<rparr>"
  have res: "name_listener_add iface nm f u env s = (- 1, s')"
    using path(3) s0(1) add rollback_of_first [OF d0 none]
    by (simp add: add0 name_listener_add_attached s'_def)
  have l: "name_listeners s' = name_listeners s"
    by (simp add: s'_def s0)
  have d: "data_mem s' x = data_mem s x" if "x \<in> set (name_listeners s)" for x
    using that fr(2) by (auto simp: s'_def s0)
  have c: "cb_mem s' x = cb_mem s x" if "x \<in> set (cbs_in_use s)" for x
    using that fr(1) by (auto simp: s'_def s0)
  have i: "name_listener_initialized s'"
    by (simp add: s'_def s0)
  show ?thesis
    using l i same_registry [OF l d c] by (simp add: res)
qed

theorem failed_install_rolls_back_witness:
  "fresh one_listener ((all_ok 11 21)\<lparr>add_match_ok := False\<rparr>)
   \<and> Add_match (match_string DBUS_INTERFACE_DBUS ''org.bluez.other'') False
        \<in> set (new_calls one_listener
             (snd (name_listener_add DBUS_INTERFACE_DBUS ''org.bluez.other'' 3 4
                ((all_ok 11 21)\<lparr>add_match_ok := False\<rparr>) one_listener)))
   \<and> fst (name_listener_add DBUS_INTERFACE_DBUS ''org.bluez.other'' 3 4
          ((all_ok 11 21)\<lparr>add_match_ok := False\<rparr>) one_listener) = - 1
   \<and> name_listeners (snd (name_listener_add DBUS_INTERFACE_DBUS ''org.bluez.other'' 3 4
          ((all_ok 11 21)\<lparr>add_match_ok := False\<rparr>) one_listener)) = [20]
   \<and> subscriptions (snd (name_listener_add DBUS_INTERFACE_DBUS ''org.bluez.other'' 3 4
          ((all_ok 11 21)\<lparr>add_match_ok := False\<rparr>) one_listener)) =
        [(''org.bluez.app'', [(1, 2)])]
   \<and> subscription (snd (name_listener_add DBUS_INTERFACE_DBUS ''org.bluez.other'' 3 4
          ((all_ok 11 21)\<lparr>add_match_ok := False\<rparr>) one_listener)) ''org.bluez.other'' = None"
proof -
  have h1: "fresh one_listener ((all_ok 11 21)\<lparr>add_match_ok := False\<rparr>)"
    by (simp add: one_listener_eq fresh_def cbs_in_use_def all_ok_def)
  have h2: "Add_match (match_string DBUS_INTERFACE_DBUS ''org.bluez.other'') False
        \<in> set (new_calls one_listener
             (snd (name_listener_add DBUS_INTERFACE_DBUS ''org.bluez.other'' 3 4
                ((all_ok 11 21)\<lparr>add_match_ok := False\<rparr>) one_listener)))"
    by (simp add: one_listener_eq registry_defs)
  have before: "name_listeners one_listener = [20]"
    "subscriptions one_listener = [(''org.bluez.app'', [(1, 2)])]"
    "subscription one_listener ''org.bluez.other'' = None"
    by (simp_all add: one_listener_eq subscriptions_def subscription_def registrations_def
        name_data_find_def)
  show ?thesis
    using h1 h2 before failed_install_rolls_back [OF h1 h2, of "''org.bluez.other''"]
    by (simp add: same_for_def)
qed

section \<open>The match rule text\<close>

lemma name_listener_remove_calls:
  "new_calls s (snd (name_listener_remove iface nm f u ok s)) = [] \<or>
   new_calls s (snd (name_listener_remove iface nm f u ok s)) =
     [Remove_match (match_string iface nm) ok]"
  by (simp add: name_listener_remove_def new_calls_def Let_def set_callbacks_def bus_call_def
      name_data_remove_bus_calls split: option.splits)

text \<open>
  C7, as amended. The rule text passed to \<^verbatim>\<open>dbus_bus_add_match\<close> by an add and to
  \<^verbatim>\<open>dbus_bus_remove_match\<close> by a remove is the first 127 characters of
  \<open>match_rule_text iface nm\<close>: \<^verbatim>\<open>snprintf\<close> writes into a buffer of 128 bytes. It
  is the whole text when interface name and service name together have at most 87
  characters, which for \<^verbatim>\<open>org.freedesktop.DBus\<close> is a service name of at most 67.
\<close>

theorem match_rule_is_text_cut_at_127:
  "(Add_match rule ok \<in> set (new_calls s (snd (name_listener_add iface nm f u env s)))
      \<longrightarrow> rule = take 127 (match_rule_text iface nm))
   \<and> (Remove_match rule ok \<in> set (new_calls s (snd (name_listener_remove iface nm f u rok s)))
      \<longrightarrow> rule = take 127 (match_rule_text iface nm))
   \<and> (length iface + length nm \<le> 87
      \<longrightarrow> take 127 (match_rule_text iface nm) = match_rule_text iface nm)"
proof -
  have "rule = take 127 (match_rule_text iface nm)"
    if "Add_match rule ok \<in> set (new_calls s (snd (name_listener_add iface nm f u env s)))"
    using that
    by (auto simp: new_calls_def name_listener_add_calls match_string_def match_rule_text_def
        split: if_splits)
  moreover have "rule = take 127 (match_rule_text iface nm)"
    if "Remove_match rule ok \<in> set (new_calls s (snd (name_listener_remove iface nm f u rok s)))"
    using that name_listener_remove_calls [of s iface nm f u rok]
    by (auto simp: match_string_def match_rule_text_def)
  moreover have "take 127 (match_rule_text iface nm) = match_rule_text iface nm"
    if "length iface + length nm \<le> 87"
    using that by (simp add: match_rule_text_def)
  ultimately show ?thesis
    by blast
qed

theorem match_rule_is_text_cut_at_127_witness:
  "Add_match (match_string DBUS_INTERFACE_DBUS ''org.bluez.app'') True
     \<in> set (new_calls initial
          (snd (name_listener_add DBUS_INTERFACE_DBUS ''org.bluez.app'' 1 2 (all_ok 10 20) initial)))
   \<and> Remove_match (match_string DBUS_INTERFACE_DBUS ''org.bluez.app'') True
     \<in> set (new_calls one_listener
          (snd (name_listener_remove DBUS_INTERFACE_DBUS ''org.bluez.app'' 1 2 True one_listener)))
   \<and> length DBUS_INTERFACE_DBUS + length ''org.bluez.app'' \<le> 87
   \<and> match_string DBUS_INTERFACE_DBUS ''org.bluez.app'' =
       match_rule_text DBUS_INTERFACE_DBUS ''org.bluez.app''"
proof -
  have h1: "Add_match (match_string DBUS_INTERFACE_DBUS ''org.bluez.app'') True
     \<in> set (new_calls initial
          (snd (name_listener_add DBUS_INTERFACE_DBUS ''org.bluez.app'' 1 2 (all_ok 10 20) initial)))"
    by (simp add: registry_defs)
  have h2: "Remove_match (match_string DBUS_INTERFACE_DBUS ''org.bluez.app'') True
     \<in> set (new_calls one_listener
          (snd (name_listener_remove DBUS_INTERFACE_DBUS ''org.bluez.app'' 1 2 True one_listener)))"
    by (simp add: one_listener_eq registry_defs)
  have h3: "length DBUS_INTERFACE_DBUS + length ''org.bluez.app'' \<le> 87"
    by (simp add: DBUS_INTERFACE_DBUS_def)
  show ?thesis
    using h1 h2 h3
      match_rule_is_text_cut_at_127 [of "match_string DBUS_INTERFACE_DBUS ''org.bluez.app''"
        True initial DBUS_INTERFACE_DBUS "''org.bluez.app''" 1 2 "all_ok 10 20" True]
    by simp
qed

text \<open>
  The claim as first stated, with the full service name in the rule, fails for a name
  of 68 characters: the rule the bus receives ends one character short.
\<close>

theorem long_name_rule_is_cut:
  "new_calls initial (snd (name_listener_add DBUS_INTERFACE_DBUS long_name 1 2 (all_ok 10 20) initial))
     = [Add_filter True,
        Add_match ''interface=org.freedesktop.DBus,member=NameOwnerChanged,arg0=org.bluez.service.with.a.very.long.well.known.bus.name.of.68.chars.'' True]
   \<and> match_rule_text DBUS_INTERFACE_DBUS long_name =
      ''interface=org.freedesktop.DBus,member=NameOwnerChanged,arg0=org.bluez.service.with.a.very.long.well.known.bus.name.of.68.chars.x''
   \<and> Add_match (match_rule_text DBUS_INTERFACE_DBUS long_name) True
       \<notin> set (new_calls initial
            (snd (name_listener_add DBUS_INTERFACE_DBUS long_name 1 2 (all_ok 10 20) initial)))"
  by (simp add: registry_defs match_string_def match_rule_text_def long_name_def
      DBUS_INTERFACE_DBUS_def)

section \<open>Adds for one name\<close>

text \<open>An add for a name that has a subscription record, in an initialised registry.\<close>

lemma name_listener_add_found:
  assumes "name_listener_initialized s" and "name_data_find s nm = Some d"
    and "malloc_cb env = Some cb"
  shows "name_listener_add iface nm f u env s =
     (0, s\<lparr>cb_mem := (cb_mem s)(cb := \<lparr>func = f, user_data = u\<rparr>),
           data_mem := (data_mem s)
             (d := (data_mem s d)\<lparr>callbacks := callbacks (data_mem s d) @ [cb]\<rparr>)\<rparr>)"
  using assms
  by (simp add: name_listener_add_attached name_data_add_def Let_def set_callbacks_def
      slist_append_def)

lemma name_listener_add_found_no_cb:
  assumes "name_listener_initialized s" and "malloc_cb env = None"
  shows "name_listener_add iface nm f u env s = (0, s)"
  using assms
  by (simp add: name_listener_add_attached name_data_add_def)

lemma name_data_find_set_callbacks [simp]:
  "name_data_find (s\<lparr>data_mem := (data_mem s)(d := (data_mem s d)\<lparr>callbacks := l\<rparr>)\<rparr>) nm
     = name_data_find s nm"
  unfolding name_data_find_def by simp (rule find_from_cong, simp)

text \<open>The first add for a name, when it returns 0 and its allocations succeed.\<close>

lemma name_listener_add_first:
  assumes none: "name_data_find s nm = None"
    and alloc: "malloc_cb env = Some cb" "malloc_data env = Some d" "strdup_ok env"
    and ret: "fst (name_listener_add iface nm f u env s) = 0"
  shows "snd (name_listener_add iface nm f u env s) =
     s\<lparr>name_listener_initialized := True,
       cb_mem := (cb_mem s)(cb := \<lparr>func = f, user_data = u\<rparr>),
       data_mem := (data_mem s)(d := \<lparr>name = nm, callbacks = [cb]\<rparr>),
       name_listeners := name_listeners s @ [d],
       bus_calls := bus_calls s @
         (if name_listener_initialized s then [] else [Add_filter True]) @
         [Add_match (match_string iface nm) True]\<rparr>"
proof -
  have add: "name_data_add nm f u env s' =
      (1, s'\<lparr>cb_mem := (cb_mem s')(cb := \<lparr>func = f, user_data = u\<rparr>),
            data_mem := (data_mem s')(d := \<lparr>name = nm, callbacks = [cb]\<rparr>),
            name_listeners := name_listeners s' @ [d]\<rparr>)"
    if "name_data_find s' nm = None" for s'
    using that alloc
    by (simp add: name_data_add_def Let_def set_callbacks_def slist_append_def)
  show ?thesis
  proof (cases "name_listener_initialized s")
    case True
    then have ok: "add_match_ok env"
      using ret add [OF none] by (auto simp: name_listener_add_attached split: if_splits)
    have "s\<lparr>name_listener_initialized := True\<rparr> = s"
      using True by simp
    then show ?thesis
      using True ok add [OF none]
      by (simp add: name_listener_add_attached bus_call_def)
  next
    case False
    have fok: "add_filter_ok env"
    proof (rule ccontr)
      assume "\<not> add_filter_ok env"
      with False ret show False
        by (simp add: name_listener_add_attach_fails)
    qed
    define s0 where "s0 = (bus_call (Add_filter True) s)\<lparr>name_listener_initialized := True\<rparr>"
    have s0: "name_listener_initialized s0" "name_data_find s0 nm = None"
      using none by (simp_all add: s0_def)
    have eq: "name_listener_add iface nm f u env s = name_listener_add iface nm f u env s0"
      using False fok by (simp add: s0_def name_listener_add_attach)
    then have ok: "add_match_ok env"
      using ret add [OF s0(2)] s0(1)
      by (auto simp: name_listener_add_attached split: if_splits)
    show ?thesis
      using False ok add [OF s0(2)] s0(1)
      by (simp add: eq name_listener_add_attached) (simp add: s0_def bus_call_def)
  qed
qed

lemma find_from_linked:
  assumes "name_data_find_from mem l nm = None"
  shows "name_data_find_from (mem(d := \<lparr>name = nm, callbacks = cbs\<rparr>)) (l @ [d]) nm = Some d"
proof (cases "name_data_find_from (mem(d := \<lparr>name = nm, callbacks = cbs\<rparr>)) l nm")
  case None
  then show ?thesis
    by (simp add: find_from_append)
next
  case (Some a)
  then have "a \<in> set l" and "name ((mem(d := \<lparr>name = nm, callbacks = cbs\<rparr>)) a) = nm"
    by (auto dest: find_from_SomeD)
  with assms have "a = d"
    by (auto simp: find_from_None_iff split: if_splits)
  with Some show ?thesis
    by (simp add: find_from_append)
qed

lemma name_listener_add_found_keeps:
  assumes "name_listener_initialized s" and "name_data_find s nm = Some d"
  shows "fst (name_listener_add iface nm f u env s) = 0
       \<and> name_listener_initialized (snd (name_listener_add iface nm f u env s))
       \<and> name_data_find (snd (name_listener_add iface nm f u env s)) nm = Some d"
proof (cases "malloc_cb env")
  case None
  then show ?thesis
    using assms by (simp add: name_listener_add_found_no_cb)
next
  case (Some cb)
  have "name_data_find (s\<lparr>cb_mem := (cb_mem s)(cb := \<lparr>func = f, user_data = u\<rparr>),
           data_mem := (data_mem s)
             (d := (data_mem s d)\<lparr>callbacks := callbacks (data_mem s d) @ [cb]\<rparr>)\<rparr>) nm =
        name_data_find s nm"
    by (rule name_data_find_cong) simp_all
  then show ?thesis
    using assms Some by (simp add: name_listener_add_found)
qed

lemma add_all_later:
  assumes "name_listener_initialized s" and "name_data_find s nm = Some d"
    and "\<forall>(f, u, env)\<in>set rest. malloc_cb env \<noteq> None"
    and "distinct (map Some (callbacks (data_mem s d)) @ map (\<lambda>(f, u, env). malloc_cb env) rest)"
  shows "bus_calls (snd (add_all iface nm rest s)) = bus_calls s
       \<and> name_data_find (snd (add_all iface nm rest s)) nm = Some d
       \<and> registrations (snd (add_all iface nm rest s)) d =
           registrations s d @ map (\<lambda>(f, u, env). (f, u)) rest"
  using assms
proof (induction rest arbitrary: s)
  case Nil
  then show ?case by simp
next
  case (Cons call rest)
  obtain f u env where call: "call = (f, u, env)"
    by (cases call)
  from Cons.prems(3) call obtain cb where cb: "malloc_cb env = Some cb"
    by auto
  define s1 where "s1 = s\<lparr>cb_mem := (cb_mem s)(cb := \<lparr>func = f, user_data = u\<rparr>),
           data_mem := (data_mem s)
             (d := (data_mem s d)\<lparr>callbacks := callbacks (data_mem s d) @ [cb]\<rparr>)\<rparr>"
  have add: "name_listener_add iface nm f u env s = (0, s1)"
    unfolding s1_def using Cons.prems(1,2) cb by (rule name_listener_add_found)
  have new: "cb \<notin> set (callbacks (data_mem s d))"
    using Cons.prems(4) call cb by auto
  then have regs1: "registrations s1 d = registrations s d @ [(f, u)]"
    by (simp add: registrations_def s1_def)
  have s1: "name_listener_initialized s1" "name_data_find s1 nm = Some d"
    "bus_calls s1 = bus_calls s"
    using Cons.prems(1,2) name_listener_add_found_keeps [OF Cons.prems(1,2), of iface f u env]
    by (simp_all add: add) (simp add: s1_def)
  have rest: "\<forall>(f, u, env)\<in>set rest. malloc_cb env \<noteq> None"
    using Cons.prems(3) by simp
  have dis: "distinct (map Some (callbacks (data_mem s1 d)) @
      map (\<lambda>(f, u, env). malloc_cb env) rest)"
    using Cons.prems(4) call cb by (simp add: s1_def)
  have all: "snd (add_all iface nm ((f, u, env) # rest) s) = snd (add_all iface nm rest s1)"
    using add by (simp split: prod.splits)
  show ?case
    unfolding call all
    using Cons.IH [OF s1(1,2) rest dis] s1(3) regs1
    by simp
qed

lemma add_all_later_returns:
  assumes "name_listener_initialized s" and "name_data_find s nm = Some d"
  shows "\<forall>r\<in>set (fst (add_all iface nm rest s)). r = 0"
  using assms
proof (induction rest arbitrary: s)
  case Nil
  then show ?case by simp
next
  case (Cons call rest)
  obtain f u env where call: "call = (f, u, env)"
    by (cases call)
  obtain s1 where add: "name_listener_add iface nm f u env s = (0, s1)"
    and s1: "name_listener_initialized s1" "name_data_find s1 nm = Some d"
    using name_listener_add_found_keeps [OF Cons.prems, of iface f u env]
    by (cases "name_listener_add iface nm f u env s") auto
  show ?case
    using Cons.IH [OF s1] add by (simp add: call split: prod.splits)
qed

text \<open>
  C1. Successful adds for one name, starting where the name has no subscription
  record: each call returns 0, and the allocations it needs succeed (the callback
  record of every call, the name record and the name copy of the first; distinct
  blocks, all of them staying in use). Then the first call installs the match rule,
  once; the later calls make no call to the outside at all, so over the whole sequence
  \<^verbatim>\<open>dbus_bus_add_match\<close> is called exactly once; and the name's registrations are
  those of the calls, in order.
\<close>

theorem one_install_for_many_adds:
  assumes "name_data_find s nm = None"
    and "malloc_data env \<noteq> None" and "strdup_ok env"
    and "\<forall>(f', u', env')\<in>set ((f, u, env) # rest). malloc_cb env' \<noteq> None"
    and "distinct (map (\<lambda>(f', u', env'). malloc_cb env') ((f, u, env) # rest))"
    and "\<forall>r\<in>set (fst (add_all iface nm ((f, u, env) # rest) s)). r = 0"
  shows "filter is_add_match (new_calls s (snd (name_listener_add iface nm f u env s))) =
           [Add_match (match_string iface nm) True]
       \<and> new_calls (snd (name_listener_add iface nm f u env s))
           (snd (add_all iface nm ((f, u, env) # rest) s)) = []
       \<and> length (filter is_add_match
           (new_calls s (snd (add_all iface nm ((f, u, env) # rest) s)))) = 1
       \<and> subscription (snd (add_all iface nm ((f, u, env) # rest) s)) nm =
           Some (map (\<lambda>(f', u', env'). (f', u')) ((f, u, env) # rest))"
proof -
  obtain cb d where alloc: "malloc_cb env = Some cb" "malloc_data env = Some d"
    using assms(2,4) by auto
  define s1 where "s1 = snd (name_listener_add iface nm f u env s)"
  have ret: "fst (name_listener_add iface nm f u env s) = 0"
    using assms(6) by (simp add: split: prod.splits)
  have s1_eq: "s1 = s\<lparr>name_listener_initialized := True,
       cb_mem := (cb_mem s)(cb := \<lparr>func = f, user_data = u\<rparr>),
       data_mem := (data_mem s)(d := \<lparr>name = nm, callbacks = [cb]\<rparr>),
       name_listeners := name_listeners s @ [d],
       bus_calls := bus_calls s @
         (if name_listener_initialized s then [] else [Add_filter True]) @
         [Add_match (match_string iface nm) True]\<rparr>"
    unfolding s1_def using assms(1) alloc assms(3) ret by (rule name_listener_add_first)
  have init: "name_listener_initialized s1"
    by (simp add: s1_eq)
  have find: "name_data_find s1 nm = Some d"
    using assms(1) by (simp add: s1_eq name_data_find_def find_from_linked)
  have regs: "registrations s1 d = [(f, u)]"
    by (simp add: s1_eq registrations_def)
  have rest: "\<forall>(f, u, env)\<in>set rest. malloc_cb env \<noteq> None"
    using assms(4) by simp
  have dis: "distinct (map Some (callbacks (data_mem s1 d)) @
      map (\<lambda>(f, u, env). malloc_cb env) rest)"
    using assms(5) alloc by (simp add: s1_eq)
  have all: "snd (add_all iface nm ((f, u, env) # rest) s) = snd (add_all iface nm rest s1)"
    by (simp add: s1_def split: prod.splits)
  have later: "bus_calls (snd (add_all iface nm rest s1)) = bus_calls s1"
    "name_data_find (snd (add_all iface nm rest s1)) nm = Some d"
    "registrations (snd (add_all iface nm rest s1)) d =
       registrations s1 d @ map (\<lambda>(f, u, env). (f, u)) rest"
    using add_all_later [OF init find rest dis] by simp_all
  have calls: "new_calls s s1 =
      (if name_listener_initialized s then [] else [Add_filter True]) @
      [Add_match (match_string iface nm) True]"
    by (simp add: new_calls_def s1_eq)
  show ?thesis
    unfolding all s1_def [symmetric]
    using later regs calls
    by (simp add: subscription_def) (simp add: new_calls_def)
qed

theorem one_install_for_many_adds_witness:
  "name_data_find initial ''org.bluez.app'' = None
   \<and> fst (add_all DBUS_INTERFACE_DBUS ''org.bluez.app''
        [(1, 2, all_ok 10 20), (3, 4, all_ok 11 21), (1, 2, all_ok 12 22)] initial) = [0, 0, 0]
   \<and> filter is_add_match (new_calls initial
        (snd (name_listener_add DBUS_INTERFACE_DBUS ''org.bluez.app'' 1 2 (all_ok 10 20) initial)))
      = [Add_match (match_string DBUS_INTERFACE_DBUS ''org.bluez.app'') True]
   \<and> length (filter is_add_match (new_calls initial
        (snd (add_all DBUS_INTERFACE_DBUS ''org.bluez.app''
           [(1, 2, all_ok 10 20), (3, 4, all_ok 11 21), (1, 2, all_ok 12 22)] initial)))) = 1
   \<and> subscription (snd (add_all DBUS_INTERFACE_DBUS ''org.bluez.app''
           [(1, 2, all_ok 10 20), (3, 4, all_ok 11 21), (1, 2, all_ok 12 22)] initial))
        ''org.bluez.app'' = Some [(1, 2), (3, 4), (1, 2)]"
proof -
  have h1: "name_data_find initial ''org.bluez.app'' = None"
    by (simp add: initial_def name_data_find_def)
  have h2: "malloc_data (all_ok 10 20) \<noteq> None" and h3: "strdup_ok (all_ok 10 20)"
    by (simp_all add: all_ok_def)
  have h4: "\<forall>(f', u', env')\<in>set ((1, 2, all_ok 10 20) #
      [(3, 4, all_ok 11 21), (1, 2, all_ok 12 22)]). malloc_cb env' \<noteq> None"
    by (simp add: all_ok_def)
  have h5: "distinct (map (\<lambda>(f', u', env'). malloc_cb env') ((1, 2, all_ok 10 20) #
      [(3, 4, all_ok 11 21), (1, 2, all_ok 12 22)]))"
    by (simp add: all_ok_def)
  have rets: "fst (add_all DBUS_INTERFACE_DBUS ''org.bluez.app''
        [(1, 2, all_ok 10 20), (3, 4, all_ok 11 21), (1, 2, all_ok 12 22)] initial) = [0, 0, 0]"
    by (simp add: registry_defs)
  then have h6: "\<forall>r\<in>set (fst (add_all DBUS_INTERFACE_DBUS ''org.bluez.app''
        ((1, 2, all_ok 10 20) # [(3, 4, all_ok 11 21), (1, 2, all_ok 12 22)]) initial)). r = 0"
    by simp
  show ?thesis
    using h1 rets one_install_for_many_adds [OF h1 h2 h3 h4 h5 h6]
    by simp
qed

section \<open>The same registration twice\<close>

text \<open>A successful add leaves its callback record last in the name's list.\<close>

lemma name_listener_add_registers:
  assumes alloc: "malloc_cb env = Some cb" "malloc_data env \<noteq> None" "strdup_ok env"
    and ret: "fst (name_listener_add iface nm f u env s) = 0"
  shows "\<exists>d pre. name_data_find (snd (name_listener_add iface nm f u env s)) nm = Some d
       \<and> callbacks (data_mem (snd (name_listener_add iface nm f u env s)) d) = pre @ [cb]
       \<and> cb_mem (snd (name_listener_add iface nm f u env s)) cb = \<lparr>func = f, user_data = u\<rparr>
       \<and> name_listener_initialized (snd (name_listener_add iface nm f u env s))"
proof -
  have fok: "name_listener_initialized s \<or> add_filter_ok env"
  proof (rule ccontr)
    assume "\<not> (name_listener_initialized s \<or> add_filter_ok env)"
    with ret show False
      by (simp add: name_listener_add_attach_fails)
  qed
  define s0 where "s0 = (if name_listener_initialized s then s
     else (bus_call (Add_filter True) s)\<lparr>name_listener_initialized := True\<rparr>)"
  have s0: "name_listener_initialized s0" "name_data_find s0 nm = name_data_find s nm"
    using fok by (auto simp: s0_def)
  have eq: "name_listener_add iface nm f u env s = name_listener_add iface nm f u env s0"
    using fok by (auto simp: s0_def name_listener_add_attach)
  show ?thesis
  proof (cases "name_data_find s0 nm")
    case (Some d)
    have "name_data_find (s0\<lparr>cb_mem := (cb_mem s0)(cb := \<lparr>func = f, user_data = u\<rparr>),
           data_mem := (data_mem s0)
             (d := (data_mem s0 d)\<lparr>callbacks := callbacks (data_mem s0 d) @ [cb]\<rparr>)\<rparr>) nm =
        name_data_find s0 nm"
      by (rule name_data_find_cong) simp_all
    then show ?thesis
      using Some s0(1) alloc(1)
      by (simp add: eq name_listener_add_found [OF s0(1) Some alloc(1)])
  next
    case None
    obtain d where d: "malloc_data env = Some d"
      using alloc(2) by auto
    have ret0: "fst (name_listener_add iface nm f u env s0) = 0"
      using ret by (simp add: eq)
    have "name_data_find (snd (name_listener_add iface nm f u env s0)) nm = Some d"
      using None
      by (simp add: name_listener_add_first [OF None alloc(1) d alloc(3) ret0]
          name_data_find_def find_from_linked)
    then show ?thesis
      by (simp add: eq) (simp add: name_listener_add_first [OF None alloc(1) d alloc(3) ret0])
  qed
qed

lemma callback_find_append:
  "name_callback_find mem (l @ l') f u =
     (case name_callback_find mem l f u of
        Some cb \<Rightarrow> Some cb
      | None \<Rightarrow> name_callback_find mem l' f u)"
  by (induction l) auto

text \<open>A remove that leaves other registrations: no call to the bus.\<close>

lemma name_listener_remove_not_last:
  assumes "name_data_find s nm = Some d"
    and "name_callback_find (cb_mem s) (callbacks (data_mem s d)) f u = Some cb"
    and "remove1 cb (callbacks (data_mem s d)) \<noteq> []"
  shows "name_listener_remove iface nm f u ok s =
     (0, s\<lparr>data_mem := (data_mem s)
            (d := (data_mem s d)\<lparr>callbacks := remove1 cb (callbacks (data_mem s d))\<rparr>)\<rparr>)"
  using assms
  by (simp add: name_listener_remove_def Let_def set_callbacks_def slist_remove_def)

text \<open>
  C8. Two successful adds of the same (name, callback, context), with distinct
  callback records \<open>c1\<close> and \<open>c2\<close>: both records are in the name's list, the last two
  of it, each holding the pair. One remove for the pair then returns 0, calls nothing
  on the bus (the match rule stays), and takes the first registration equal to the
  pair out of the list, which keeps one element less and still holds the pair.
\<close>

theorem duplicate_registration_removed_once:
  assumes "malloc_cb e1 = Some c1" and "malloc_data e1 \<noteq> None" and "strdup_ok e1"
    and "malloc_cb e2 = Some c2" and "c1 \<noteq> c2"
    and "name_listener_add iface nm f u e1 s = (0, s1)"
    and "name_listener_add iface nm f u e2 s1 = (0, s2)"
  shows "\<exists>d pre. name_data_find s2 nm = Some d
       \<and> callbacks (data_mem s2 d) = pre @ [c1, c2]
       \<and> cb_mem s2 c1 = \<lparr>func = f, user_data = u\<rparr>
       \<and> cb_mem s2 c2 = \<lparr>func = f, user_data = u\<rparr>
       \<and> fst (name_listener_remove iface nm f u ok s2) = 0
       \<and> bus_calls (snd (name_listener_remove iface nm f u ok s2)) = bus_calls s2
       \<and> name_data_find (snd (name_listener_remove iface nm f u ok s2)) nm = Some d
       \<and> registrations (snd (name_listener_remove iface nm f u ok s2)) d =
           remove1 (f, u) (registrations s2 d)
       \<and> length (registrations (snd (name_listener_remove iface nm f u ok s2)) d) =
           length pre + 1
       \<and> (f, u) \<in> set (registrations (snd (name_listener_remove iface nm f u ok s2)) d)"
proof -
  from name_listener_add_registers [OF assms(1-3), of iface nm f u s]
  obtain d pre where s1: "name_data_find s1 nm = Some d"
    "callbacks (data_mem s1 d) = pre @ [c1]"
    "cb_mem s1 c1 = \<lparr>func = f, user_data = u\<rparr>" "name_listener_initialized s1"
    using assms(6) by auto
  have s2: "s2 = s1\<lparr>cb_mem := (cb_mem s1)(c2 := \<lparr>func = f, user_data = u\<rparr>),
           data_mem := (data_mem s1)
             (d := (data_mem s1 d)\<lparr>callbacks := callbacks (data_mem s1 d) @ [c2]\<rparr>)\<rparr>"
    using name_listener_add_found [OF s1(4) s1(1) assms(4), of iface f u] assms(7) by simp
  have find2: "name_data_find s2 nm = Some d"
    using name_listener_add_found_keeps [OF s1(4) s1(1), of iface f u e2] assms(7) by simp
  have cbs2: "callbacks (data_mem s2 d) = pre @ [c1, c2]"
    by (simp add: s2 s1(2))
  have mem2: "cb_mem s2 c1 = \<lparr>func = f, user_data = u\<rparr>"
    "cb_mem s2 c2 = \<lparr>func = f, user_data = u\<rparr>"
    using assms(5) s1(3) by (simp_all add: s2)
  have "name_callback_find (cb_mem s2) (pre @ [c1]) f u \<noteq> None"
    using mem2(1) by (simp add: callback_find_None_iff)
  then obtain c where c: "name_callback_find (cb_mem s2) (pre @ [c1]) f u = Some c"
    by auto
  then have cin: "c \<in> set (pre @ [c1])"
    by (auto dest: callback_find_SomeD simp del: set_append)
  have found: "name_callback_find (cb_mem s2) (callbacks (data_mem s2 d)) f u = Some c"
    using c callback_find_append [of "cb_mem s2" "pre @ [c1]" "[c2]" f u]
    by (simp add: cbs2)
  have rm: "remove1 c (callbacks (data_mem s2 d)) = remove1 c (pre @ [c1]) @ [c2]"
    using cin remove1_append [of c "pre @ [c1]" "[c2]"] by (simp add: cbs2)
  then have ne: "remove1 c (callbacks (data_mem s2 d)) \<noteq> []"
    by simp
  define s3 where "s3 = s2\<lparr>data_mem := (data_mem s2)
            (d := (data_mem s2 d)\<lparr>callbacks := remove1 c (callbacks (data_mem s2 d))\<rparr>)\<rparr>"
  have res: "name_listener_remove iface nm f u ok s2 = (0, s3)"
    unfolding s3_def using find2 found ne by (rule name_listener_remove_not_last)
  have find3: "name_data_find s3 nm = name_data_find s2 nm"
    by (rule name_data_find_cong) (simp_all add: s3_def)
  have regs3: "registrations s3 d = remove1 (f, u) (registrations s2 d)"
    using callback_find_remove1 [OF found] by (simp add: registrations_def s3_def)
  have len: "length (remove1 c (pre @ [c1])) = length pre"
    using cin by (simp add: length_remove1 del: set_append)
  have len3: "length (registrations s3 d) = length pre + 1"
    using len by (simp add: registrations_def s3_def rm)
  have in3: "(f, u) \<in> set (registrations s3 d)"
    using mem2(2) by (simp add: registrations_def s3_def rm image_iff) 
  show ?thesis
    using find2 cbs2 mem2 find3 regs3 len3 in3
    by (simp add: res s3_def [symmetric]) (simp add: s3_def)
qed

theorem duplicate_registration_removed_once_witness:
  "name_listener_add DBUS_INTERFACE_DBUS ''org.bluez.app'' 1 2 (all_ok 10 20) initial =
     (0, one_listener)
   \<and> name_listener_add DBUS_INTERFACE_DBUS ''org.bluez.app'' 1 2 (all_ok 11 21) one_listener =
     (0, twice_registered)
   \<and> registrations twice_registered 20 = [(1, 2), (1, 2)]
   \<and> fst (name_listener_remove DBUS_INTERFACE_DBUS ''org.bluez.app'' 1 2 True twice_registered) = 0
   \<and> bus_calls (snd (name_listener_remove DBUS_INTERFACE_DBUS ''org.bluez.app'' 1 2 True
        twice_registered)) = bus_calls twice_registered
   \<and> registrations (snd (name_listener_remove DBUS_INTERFACE_DBUS ''org.bluez.app'' 1 2 True
        twice_registered)) 20 = [(1, 2)]"
proof -
  have h1: "malloc_cb (all_ok 10 20) = Some 10" and h2: "malloc_data (all_ok 10 20) \<noteq> None"
    and h3: "strdup_ok (all_ok 10 20)" and h4: "malloc_cb (all_ok 11 21) = Some 11"
    and h5: "(10::nat) \<noteq> 11"
    by (simp_all add: all_ok_def)
  have h6: "name_listener_add DBUS_INTERFACE_DBUS ''org.bluez.app'' 1 2 (all_ok 10 20) initial =
     (0, one_listener)"
    by (simp add: one_listener_def) (simp add: registry_defs)
  have h7: "name_listener_add DBUS_INTERFACE_DBUS ''org.bluez.app'' 1 2 (all_ok 11 21)
      one_listener = (0, twice_registered)"
    by (simp add: twice_registered_def) (simp add: one_listener_eq registry_defs)
  have regs: "registrations twice_registered 20 = [(1, 2), (1, 2)]"
    and find: "name_data_find twice_registered ''org.bluez.app'' = Some 20"
    by (simp_all add: twice_registered_eq registrations_def name_data_find_def)
  from duplicate_registration_removed_once [OF h1 h2 h3 h4 h5 h6 h7, of True]
  obtain d where "name_data_find twice_registered ''org.bluez.app'' = Some d"
    and res: "fst (name_listener_remove DBUS_INTERFACE_DBUS ''org.bluez.app'' 1 2 True
        twice_registered) = 0"
      "bus_calls (snd (name_listener_remove DBUS_INTERFACE_DBUS ''org.bluez.app'' 1 2 True
        twice_registered)) = bus_calls twice_registered"
      "registrations (snd (name_listener_remove DBUS_INTERFACE_DBUS ''org.bluez.app'' 1 2 True
        twice_registered)) d = remove1 (1, 2) (registrations twice_registered d)"
    by blast
  with find have "d = 20"
    by simp
  with res regs h6 h7 show ?thesis
    by simp
qed

section \<open>Delivery of an ownership loss\<close>

lemma slist_next_found:
  "cb \<notin> set pre \<Longrightarrow> slist_next (pre @ cb # rest) cb = slist_first rest"
  by (induction pre) auto

text \<open>Callbacks that make no call into the unit: each is called once, in list order.\<close>

lemma call_callbacks_no_nested_calls:
  assumes "callbacks (data_mem s d) = pre @ l" and "distinct (pre @ l)"
    and "length l \<le> fuel"
    and "\<forall>cb\<in>set l. \<forall>s'. code (func (cb_mem s cb)) nm (user_data (cb_mem s cb)) s' = []"
  shows "call_callbacks fuel iface code nm d (slist_first l) s =
     (Returns (),
      s\<lparr>bus_calls := bus_calls s @
           map (\<lambda>cb. Callback (func (cb_mem s cb)) nm (user_data (cb_mem s cb))) l\<rparr>)"
  using assms
proof (induction l arbitrary: pre fuel s)
  case Nil
  then show ?case by (simp add: slist_first_def)
next
  case (Cons cb rest)
  from Cons.prems(3) obtain fuel' where fuel: "fuel = Suc fuel'" and len: "length rest \<le> fuel'"
    by (cases fuel) auto
  define s1 where "s1 = bus_call (Callback (func (cb_mem s cb)) nm (user_data (cb_mem s cb))) s"
  have quiet: "code (func (cb_mem s cb)) nm (user_data (cb_mem s cb)) s1 = []"
    using Cons.prems(4) by simp
  have mem: "cb_mem s1 = cb_mem s" "data_mem s1 = data_mem s"
    by (simp_all add: s1_def bus_call_def)
  have cbs: "callbacks (data_mem s1 d) = (pre @ [cb]) @ rest"
    using Cons.prems(1) by (simp add: mem)
  have next_cb: "slist_next (callbacks (data_mem s1 d)) cb = slist_first rest"
    using Cons.prems(1,2) by (simp add: mem slist_next_found)
  have rest: "call_callbacks fuel' iface code nm d (slist_first rest) s1 =
     (Returns (),
      s1\<lparr>bus_calls := bus_calls s1 @
           map (\<lambda>cb. Callback (func (cb_mem s1 cb)) nm (user_data (cb_mem s1 cb))) rest\<rparr>)"
    using cbs
  proof (rule Cons.IH)
    show "distinct ((pre @ [cb]) @ rest)"
      using Cons.prems(2) by simp
    show "length rest \<le> fuel'"
      by (rule len)
    show "\<forall>cb\<in>set rest. \<forall>s'. code (func (cb_mem s1 cb)) nm (user_data (cb_mem s1 cb)) s' = []"
      using Cons.prems(4) by (simp add: mem)
  qed
  show ?case
    using quiet next_cb rest Cons.prems(1)
    by (simp add: fuel slist_first_def Let_def s1_def [symmetric] mem)
      (simp add: s1_def bus_call_def)
qed

lemma owner_lost_with_quiet_callbacks:
  assumes "names_unique s"
    and "dbus_message_is_signal m iface ''NameOwnerChanged''"
    and "msg_args m = [Arg_string nm, Arg_string old, Arg_string []]"
    and "name_data_find s nm = Some d"
    and "distinct (callbacks (data_mem s d))"
    and "length (callbacks (data_mem s d)) \<le> fuel"
    and "\<forall>cb\<in>set (callbacks (data_mem s d)).
           \<forall>s'. code (func (cb_mem s cb)) nm (user_data (cb_mem s cb)) s' = []"
  shows "fst (name_exit_filter fuel iface code m s) = Returns NOT_YET_HANDLED
       \<and> bus_calls (snd (name_exit_filter fuel iface code m s)) =
           bus_calls s @ map (\<lambda>(f, u). Callback f nm u) (registrations s d)
       \<and> name_listeners (snd (name_exit_filter fuel iface code m s)) =
           remove1 d (name_listeners s)
       \<and> name_data_find (snd (name_exit_filter fuel iface code m s)) nm = None
       \<and> subscription (snd (name_exit_filter fuel iface code m s)) nm = None"
proof -
  have args: "dbus_message_get_args m = Some (nm, old, [])"
    using assms(3) by (simp add: dbus_message_get_args_def)
  have gone: "name_data_find_from (data_mem s) (remove1 d (name_listeners s)) nm = None"
    using assms(1,4) unfolding names_unique_def name_data_find_def
    by (rule find_from_remove1_found)
  have walk: "call_callbacks fuel iface code nm d (slist_first (callbacks (data_mem s d))) s =
     (Returns (),
      s\<lparr>bus_calls := bus_calls s @
           map (\<lambda>cb. Callback (func (cb_mem s cb)) nm (user_data (cb_mem s cb)))
             (callbacks (data_mem s d))\<rparr>)"
    using assms(5,6,7)
    by (intro call_callbacks_no_nested_calls [where pre = "[]"]) simp_all
  show ?thesis
    using assms(2,4) args gone
    by (simp add: name_exit_filter_def walk slist_remove_def subscription_def
        name_data_find_def registrations_def comp_def)
qed

text \<open>A callback that adds itself again is called again, and so on without end.\<close>

lemma resubscribes_never_ends:
  assumes "name_listener_initialized s" and "name_data_find s nm = Some d"
    and "callbacks (data_mem s d) = pre @ [cb]" and "cb \<notin> set pre"
    and "cb_mem s cb = \<lparr>func = f, user_data = u\<rparr>"
    and "\<forall>x\<in>set (pre @ [cb]). x \<le> 100 + length (bus_calls s)"
  shows "fst (call_callbacks fuel iface resubscribes nm d (Some cb) s) = Out_of_fuel
       \<and> bus_calls (snd (call_callbacks fuel iface resubscribes nm d (Some cb) s)) =
           bus_calls s @ replicate fuel (Callback f nm u)
       \<and> name_listeners (snd (call_callbacks fuel iface resubscribes nm d (Some cb) s)) =
           name_listeners s"
  using assms
proof (induction fuel arbitrary: s pre cb)
  case 0
  then show ?case by simp
next
  case (Suc fuel)
  define s1 where "s1 = bus_call (Callback f nm u) s"
  define new where "new = 100 + length (bus_calls s1)"
  define s2 where "s2 = s1\<lparr>cb_mem := (cb_mem s1)(new := \<lparr>func = f, user_data = u\<rparr>),
           data_mem := (data_mem s1)
             (d := (data_mem s1 d)\<lparr>callbacks := callbacks (data_mem s1 d) @ [new]\<rparr>)\<rparr>"
  have s1: "name_listener_initialized s1" "name_data_find s1 nm = Some d"
    "callbacks (data_mem s1 d) = pre @ [cb]" "length (bus_calls s1) = Suc (length (bus_calls s))"
    using Suc.prems(1,2,3) by (simp_all add: s1_def bus_call_def)
  have "name_listener_add iface nm f u (all_ok new 0) s1 = (0, s2)"
    unfolding s2_def by (rule name_listener_add_found [OF s1(1,2)]) (simp add: all_ok_def)
  then have run: "nested_run iface (resubscribes f nm u s1) s1 = s2"
    by (simp add: resubscribes_def new_def)
  have new: "new \<notin> set (pre @ [cb])"
    using Suc.prems(6) s1(4) by (auto simp: new_def)
  have cbs2: "callbacks (data_mem s2 d) = (pre @ [cb]) @ [new]"
    by (simp add: s2_def s1(3))
  have next_cb: "slist_next (callbacks (data_mem s2 d)) cb = Some new"
    using Suc.prems(4) slist_next_found [of cb pre "[new]"]
    by (simp add: cbs2 slist_first_def)
  have find2: "name_data_find s2 nm = name_data_find s1 nm"
    by (rule name_data_find_cong) (simp_all add: s2_def)
  have rest: "fst (call_callbacks fuel iface resubscribes nm d (Some new) s2) = Out_of_fuel
       \<and> bus_calls (snd (call_callbacks fuel iface resubscribes nm d (Some new) s2)) =
           bus_calls s2 @ replicate fuel (Callback f nm u)
       \<and> name_listeners (snd (call_callbacks fuel iface resubscribes nm d (Some new) s2)) =
           name_listeners s2"
  proof (rule Suc.IH [OF _ _ cbs2 new])
    show "name_listener_initialized s2"
      using s1(1) by (simp add: s2_def)
    show "name_data_find s2 nm = Some d"
      using find2 s1(2) by simp
    show "cb_mem s2 new = \<lparr>func = f, user_data = u\<rparr>"
      by (simp add: s2_def)
    show "\<forall>x\<in>set ((pre @ [cb]) @ [new]). x \<le> 100 + length (bus_calls s2)"
      using Suc.prems(6) s1(4) by (auto simp: new_def s2_def)
  qed
  have s2: "bus_calls s2 = bus_calls s @ [Callback f nm u]" "name_listeners s2 = name_listeners s"
    by (simp_all add: s2_def s1_def bus_call_def)
  show ?case
    using Suc.prems(5) run next_cb rest
    by (simp add: Let_def s1_def [symmetric] cbs2 s2 replicate_app_Cons_same)
qed

text \<open>
  C6. The claim: the filter calls the callback of every registration once, in order,
  and then destroys the subscription. It does when no callback calls back into the
  unit (\<open>owner_lost_with_quiet_callbacks\<close>). But the loop reads \<^verbatim>\<open>l->next\<close> from the
  list as the callback left it, and the record is unlinked only after the loop. A
  callback that adds itself again for the name, to go on watching, appends to the
  list the loop is walking: the loop reaches the new registration, calls the callback
  again, which adds itself again, and never ends; the filter does not return and the
  subscription is not destroyed. A callback that removes its own registration frees
  the node the loop stands on, and the loop reads it. A callback that registers
  another one for the name has it called in the same delivery and lost with the
  subscription.
\<close>

theorem callback_that_adds_itself_is_called_without_end:
  "fst (name_exit_filter fuel DBUS_INTERFACE_DBUS resubscribes (owner_lost ''org.bluez.app'')
          one_listener) = Out_of_fuel
   \<and> new_calls one_listener
        (snd (name_exit_filter fuel DBUS_INTERFACE_DBUS resubscribes
           (owner_lost ''org.bluez.app'') one_listener)) =
      replicate fuel (Callback 1 ''org.bluez.app'' 2)
   \<and> name_listeners (snd (name_exit_filter fuel DBUS_INTERFACE_DBUS resubscribes
        (owner_lost ''org.bluez.app'') one_listener)) = [20]
   \<and> fst (name_exit_filter (Suc fuel) DBUS_INTERFACE_DBUS unsubscribes
          (owner_lost ''org.bluez.app'') one_listener) = Reads_freed_node
   \<and> name_exit_filter 5 DBUS_INTERFACE_DBUS hands_over (owner_lost ''org.bluez.app'')
        one_listener =
      (Returns NOT_YET_HANDLED,
       one_listener\<lparr>
         name_listeners := [],
         data_mem := (data_mem one_listener)
           (20 := \<lparr>name = ''org.bluez.app'', callbacks = [10, 11]\<rparr>),
         cb_mem := (cb_mem one_listener)(11 := \<lparr>func = 3, user_data = 4\<rparr>),
         bus_calls := bus_calls one_listener @
           [Callback 1 ''org.bluez.app'' 2, Callback 3 ''org.bluez.app'' 4]\<rparr>)"
proof -
  have find: "name_data_find one_listener ''org.bluez.app'' = Some 20"
    and cbs: "callbacks (data_mem one_listener 20) = [] @ [10]"
    and init: "name_listener_initialized one_listener"
    and mem: "cb_mem one_listener 10 = \<lparr>func = 1, user_data = 2\<rparr>"
    and small: "\<forall>x\<in>set ([] @ [10]). x \<le> 100 + length (bus_calls one_listener)"
    and lst: "name_listeners one_listener = [20]"
    by (simp_all add: one_listener_eq name_data_find_def)
  have walk: "fst (call_callbacks fuel DBUS_INTERFACE_DBUS resubscribes ''org.bluez.app'' 20
          (Some 10) one_listener) = Out_of_fuel
       \<and> bus_calls (snd (call_callbacks fuel DBUS_INTERFACE_DBUS resubscribes ''org.bluez.app''
          20 (Some 10) one_listener)) =
           bus_calls one_listener @ replicate fuel (Callback 1 ''org.bluez.app'' 2)
       \<and> name_listeners (snd (call_callbacks fuel DBUS_INTERFACE_DBUS resubscribes
          ''org.bluez.app'' 20 (Some 10) one_listener)) = name_listeners one_listener"
    by (rule resubscribes_never_ends [OF init find cbs _ mem small]) simp
  obtain e s1 where res: "call_callbacks fuel DBUS_INTERFACE_DBUS resubscribes ''org.bluez.app'' 20
          (Some 10) one_listener = (e, s1)"
    by (cases "call_callbacks fuel DBUS_INTERFACE_DBUS resubscribes ''org.bluez.app'' 20
          (Some 10) one_listener")
  have filter: "name_exit_filter fuel DBUS_INTERFACE_DBUS resubscribes
      (owner_lost ''org.bluez.app'') one_listener = (Out_of_fuel, s1)"
    using walk res find
    by (simp add: name_exit_filter_def owner_lost_def dbus_message_is_signal_def
        dbus_message_get_args_def slist_first_def one_listener_eq)
  have a: "fst (name_exit_filter fuel DBUS_INTERFACE_DBUS resubscribes
      (owner_lost ''org.bluez.app'') one_listener) = Out_of_fuel"
    and b: "new_calls one_listener
        (snd (name_exit_filter fuel DBUS_INTERFACE_DBUS resubscribes
           (owner_lost ''org.bluez.app'') one_listener)) =
      replicate fuel (Callback 1 ''org.bluez.app'' 2)"
    and c: "name_listeners (snd (name_exit_filter fuel DBUS_INTERFACE_DBUS resubscribes
        (owner_lost ''org.bluez.app'') one_listener)) = [20]"
    using walk res lst by (simp_all add: filter new_calls_def)
  have d: "fst (name_exit_filter (Suc fuel) DBUS_INTERFACE_DBUS unsubscribes
          (owner_lost ''org.bluez.app'') one_listener) = Reads_freed_node"
    by (simp add: one_listener_eq registry_defs slist_first_def unsubscribes_def)
  have e: "name_exit_filter 5 DBUS_INTERFACE_DBUS hands_over (owner_lost ''org.bluez.app'')
        one_listener =
      (Returns NOT_YET_HANDLED,
       one_listener\<lparr>
         name_listeners := [],
         data_mem := (data_mem one_listener)
           (20 := \<lparr>name = ''org.bluez.app'', callbacks = [10, 11]\<rparr>),
         cb_mem := (cb_mem one_listener)(11 := \<lparr>func = 3, user_data = 4\<rparr>),
         bus_calls := bus_calls one_listener @
           [Callback 1 ''org.bluez.app'' 2, Callback 3 ''org.bluez.app'' 4]\<rparr>)"
    by (simp add: one_listener_eq registry_defs slist_first_def hands_over_def
        eval_nat_numeral)
  show ?thesis
    using a b c d e by simp
qed

section \<open>Attaching the filter\<close>

lemma attached_before_match_append:
  assumes "attached_before_match calls"
    and "\<And>pre rule ok post. new = pre @ Add_match rule ok # post \<Longrightarrow>
           Add_filter True \<in> set calls \<union> set pre"
  shows "attached_before_match (calls @ new)"
  unfolding attached_before_match_def
proof (intro allI impI)
  fix pre rule ok post
  assume eq: "calls @ new = pre @ Add_match rule ok # post"
  then consider (left) us where "calls = pre @ us" "us @ new = Add_match rule ok # post"
    | (right) us where "calls @ us = pre" "new = us @ Add_match rule ok # post"
    by (auto simp: append_eq_append_conv2)
  then show "Add_filter True \<in> set pre"
  proof cases
    case left
    show ?thesis
    proof (cases us)
      case Nil
      with left have "new = [] @ Add_match rule ok # post" and "calls = pre"
        by simp_all
      with assms(2) show ?thesis by fastforce
    next
      case (Cons x xs)
      with left have "calls = pre @ Add_match rule ok # xs"
        by simp
      with assms(1) show ?thesis
        by (auto simp: attached_before_match_def)
    qed
  next
    case right
    with assms(2) [of us rule ok post] show ?thesis
      by auto
  qed
qed

lemma attached_before_match_quiet:
  assumes "attached_before_match calls" and "\<forall>c\<in>set new. \<not> is_add_match c"
  shows "attached_before_match (calls @ new)"
  using assms(1)
proof (rule attached_before_match_append)
  fix pre rule ok post
  assume "new = pre @ Add_match rule ok # post"
  with assms(2) show "Add_filter True \<in> set calls \<union> set pre"
    by auto
qed

lemma name_listener_add_flag:
  "name_listener_initialized (snd (name_listener_add iface nm f u env s)) \<longleftrightarrow>
     name_listener_initialized s \<or> add_filter_ok env"
proof (cases "name_listener_initialized s")
  case True
  then show ?thesis
    by (simp add: name_listener_add_attached name_data_add_initialized
        name_data_remove_initialized bus_call_def)
next
  case False
  then show ?thesis
    by (cases "add_filter_ok env")
      (simp_all add: name_listener_add_attach name_listener_add_attach_fails
        name_listener_add_attached name_data_add_initialized
        name_data_remove_initialized bus_call_def)
qed

lemma name_listener_add_unattached:
  "\<not> name_listener_initialized (snd (name_listener_add iface nm f u env s)) \<Longrightarrow>
   name_listeners (snd (name_listener_add iface nm f u env s)) = name_listeners s"
  by (cases "name_listener_initialized s"; cases "add_filter_ok env")
    (simp_all add: name_listener_add_flag name_listener_add_attach_fails bus_call_def)

lemma attach_inv_add:
  assumes "attach_inv s"
  shows "attach_inv (snd (name_listener_add iface nm f u env s))"
proof -
  let ?s' = "snd (name_listener_add iface nm f u env s)"
  let ?new = "(if name_listener_initialized s then [] else [Add_filter (add_filter_ok env)]) @
     (if (name_listener_initialized s \<or> add_filter_ok env) \<and>
         fst (name_data_add nm f u env s) \<noteq> 0
      then [Add_match (match_string iface nm) (add_match_ok env)] else [])"
  have calls: "bus_calls ?s' = bus_calls s @ ?new"
    by (rule name_listener_add_calls)
  have flag: "name_listener_initialized ?s' \<longleftrightarrow> name_listener_initialized s \<or> add_filter_ok env"
    by (rule name_listener_add_flag)
  have old: "count_list (bus_calls s) (Add_filter True) \<le> 1"
    "name_listener_initialized s \<longleftrightarrow> Add_filter True \<in> set (bus_calls s)"
    "attached_before_match (bus_calls s)"
    "name_listeners s \<noteq> [] \<longrightarrow> name_listener_initialized s"
    using assms by (auto simp: attach_inv_def)
  have "count_list (bus_calls s) (Add_filter True) = 0" if "\<not> name_listener_initialized s"
    using that old(2) by (simp add: count_list_0_iff)
  then have c1: "count_list (bus_calls ?s') (Add_filter True) \<le> 1"
    unfolding calls using old(1) by (auto simp: count_list_append)
  have c2: "name_listener_initialized ?s' \<longleftrightarrow> Add_filter True \<in> set (bus_calls ?s')"
    unfolding calls flag using old(2) by auto
  have c3: "attached_before_match (bus_calls ?s')"
    unfolding calls using old(3)
  proof (rule attached_before_match_append)
    fix pre rule ok post
    assume "?new = pre @ Add_match rule ok # post"
    then show "Add_filter True \<in> set (bus_calls s) \<union> set pre"
      using old(2)
      by (auto simp: Cons_eq_append_conv append_eq_Cons_conv split: if_splits)
  qed
  have c4: "name_listeners ?s' \<noteq> [] \<longrightarrow> name_listener_initialized ?s'"
    using old(4) name_listener_add_unattached [of iface nm f u env s] flag by auto
  show ?thesis
    using c1 c2 c3 c4 by (simp add: attach_inv_def)
qed


lemma name_listener_remove_keeps:
  "name_listener_initialized (snd (name_listener_remove iface nm f u ok s)) =
     name_listener_initialized s"
  "set (name_listeners (snd (name_listener_remove iface nm f u ok s))) \<subseteq> set (name_listeners s)"
  by (auto simp: name_listener_remove_def Let_def set_callbacks_def bus_call_def
      name_data_remove_def slist_remove_def split: option.splits
      dest: set_remove1_subset [THEN subsetD])

lemma name_listener_remove_bus_calls:
  "\<exists>new. bus_calls (snd (name_listener_remove iface nm f u ok s)) = bus_calls s @ new
     \<and> (\<forall>c\<in>set new. \<not> is_add_match c \<and> \<not> is_add_filter c)"
  by (simp add: name_listener_remove_def Let_def set_callbacks_def bus_call_def
      name_data_remove_bus_calls split: option.splits)

lemma attach_inv_quiet:
  assumes "attach_inv s"
    and "name_listener_initialized s' = name_listener_initialized s"
    and "set (name_listeners s') \<subseteq> set (name_listeners s)"
    and "\<exists>new. bus_calls s' = bus_calls s @ new
           \<and> (\<forall>c\<in>set new. \<not> is_add_match c \<and> \<not> is_add_filter c)"
  shows "attach_inv s'"
proof -
  from assms(4) obtain new where new: "bus_calls s' = bus_calls s @ new"
    and quiet: "\<forall>c\<in>set new. \<not> is_add_match c \<and> \<not> is_add_filter c"
    by blast
  have notin: "Add_filter True \<notin> set new"
    using quiet by auto
  then have "count_list new (Add_filter True) = 0"
    by (simp add: count_list_0_iff)
  moreover have "attached_before_match (bus_calls s @ new)"
    using assms(1) quiet by (intro attached_before_match_quiet) (auto simp: attach_inv_def)
  moreover have "name_listeners s' \<noteq> [] \<longrightarrow> name_listeners s \<noteq> []"
    using assms(3) by auto
  ultimately show ?thesis
    using assms(1,2) notin by (auto simp: attach_inv_def new count_list_append)
qed

lemma attach_inv_remove:
  assumes "attach_inv s"
  shows "attach_inv (snd (name_listener_remove iface nm f u ok s))"
  using assms
  by (rule attach_inv_quiet)
    (rule name_listener_remove_keeps name_listener_remove_bus_calls)+

lemma attach_inv_nested_run:
  "attach_inv s \<Longrightarrow> attach_inv (nested_run iface cs s)"
proof (induction cs arbitrary: s)
  case Nil
  then show ?case by simp
next
  case (Cons c cs)
  then have "attach_inv (nested_step iface c s)"
    by (cases c) (simp_all add: attach_inv_add attach_inv_remove)
  then show ?case
    by (simp add: Cons.IH)
qed

lemma attach_inv_bus_call:
  assumes "attach_inv s" and "\<not> is_add_match c" and "\<not> is_add_filter c"
  shows "attach_inv (bus_call c s)"
  using assms(1)
proof (rule attach_inv_quiet)
  show "\<exists>new. bus_calls (bus_call c s) = bus_calls s @ new
      \<and> (\<forall>c\<in>set new. \<not> is_add_match c \<and> \<not> is_add_filter c)"
    using assms(2,3) by (simp add: bus_call_def)
qed (simp_all add: bus_call_def)

lemma attach_inv_unlink:
  assumes "attach_inv s"
  shows "attach_inv (s\<lparr>name_listeners := slist_remove (name_listeners s) d\<rparr>)"
  using assms
proof (rule attach_inv_quiet)
  show "set (name_listeners (s\<lparr>name_listeners := slist_remove (name_listeners s) d\<rparr>))
      \<subseteq> set (name_listeners s)"
    by (simp add: slist_remove_def set_remove1_subset)
qed simp_all

lemma attach_inv_call_callbacks:
  "attach_inv s \<Longrightarrow> attach_inv (snd (call_callbacks fuel iface code nm d l s))"
proof (induction fuel arbitrary: l s)
  case 0
  then show ?case by (cases l) simp_all
next
  case (Suc fuel)
  show ?case
  proof (cases l)
    case None
    with Suc.prems show ?thesis by simp
  next
    case (Some cb)
    define s2 where "s2 = nested_run iface
      (code (func (cb_mem s cb)) nm (user_data (cb_mem s cb))
         (bus_call (Callback (func (cb_mem s cb)) nm (user_data (cb_mem s cb))) s))
      (bus_call (Callback (func (cb_mem s cb)) nm (user_data (cb_mem s cb))) s)"
    have s2: "attach_inv s2"
      unfolding s2_def using Suc.prems
      by (intro attach_inv_nested_run attach_inv_bus_call) simp_all
    then have "attach_inv (snd (call_callbacks fuel iface code nm d l' s2))" for l'
      by (rule Suc.IH)
    then show ?thesis
      using s2 by (simp add: Some Let_def s2_def [symmetric])
  qed
qed

lemma attach_inv_name_exit_filter:
  assumes "attach_inv s"
  shows "attach_inv (snd (name_exit_filter fuel iface code m s))"
proof -
  have walk: "attach_inv (snd (call_callbacks fuel iface code nm d l s))" for nm d l
    using assms by (rule attach_inv_call_callbacks)
  have "attach_inv s1" and "attach_inv (s1\<lparr>name_listeners := slist_remove (name_listeners s1) d\<rparr>)"
    if "call_callbacks fuel iface code nm d l s = (e, s1)" for nm d l e s1
    using walk [of nm d l] that by (simp_all add: attach_inv_unlink)
  then show ?thesis
    using assms
    by (auto simp: name_exit_filter_def split: option.splits prod.splits ending.splits)
qed

lemma attach_inv_step: "attach_inv s \<Longrightarrow> attach_inv (step fuel iface code c s)"
  by (cases c) (simp_all add: attach_inv_add attach_inv_remove attach_inv_name_exit_filter)

lemma attach_inv_run: "attach_inv s \<Longrightarrow> attach_inv (run fuel iface code cs s)"
  by (induction cs arbitrary: s) (auto simp: attach_inv_step)

lemma attach_inv_initial: "attach_inv initial"
  by (simp add: attach_inv_def initial_def attached_before_match_def)

text \<open>Once the flag is set, no call attaches or tries to attach the filter.\<close>

lemma stays_attached_refl: "name_listener_initialized s \<Longrightarrow> stays_attached s s"
  by (simp add: stays_attached_def)

lemma stays_attached_trans:
  "stays_attached s s1 \<Longrightarrow> stays_attached s1 s2 \<Longrightarrow> stays_attached s s2"
  by (simp add: stays_attached_def)

lemma stays_attached_add:
  "name_listener_initialized s \<Longrightarrow>
   stays_attached s (snd (name_listener_add iface nm f u env s))"
  by (simp add: stays_attached_def name_listener_add_flag name_listener_add_calls)

lemma stays_attached_remove:
  "name_listener_initialized s \<Longrightarrow>
   stays_attached s (snd (name_listener_remove iface nm f u ok s))"
  using name_listener_remove_bus_calls [of iface nm f u ok s]
  by (auto simp: stays_attached_def name_listener_remove_keeps)

lemma stays_attached_nested_run:
  "name_listener_initialized s \<Longrightarrow> stays_attached s (nested_run iface cs s)"
proof (induction cs arbitrary: s)
  case Nil
  then show ?case by (simp add: stays_attached_refl)
next
  case (Cons c cs)
  then have step: "stays_attached s (nested_step iface c s)"
    by (cases c) (simp_all add: stays_attached_add stays_attached_remove)
  then have "name_listener_initialized (nested_step iface c s)"
    by (simp add: stays_attached_def)
  then have "stays_attached (nested_step iface c s) (nested_run iface cs (nested_step iface c s))"
    by (rule Cons.IH)
  with step show ?case
    by (simp add: stays_attached_trans)
qed

lemma stays_attached_call_callbacks:
  "name_listener_initialized s \<Longrightarrow>
   stays_attached s (snd (call_callbacks fuel iface code nm d l s))"
proof (induction fuel arbitrary: l s)
  case 0
  then show ?case by (cases l) (simp_all add: stays_attached_refl)
next
  case (Suc fuel)
  show ?case
  proof (cases l)
    case None
    with Suc.prems show ?thesis by (simp add: stays_attached_refl)
  next
    case (Some cb)
    define s1 where "s1 = bus_call (Callback (func (cb_mem s cb)) nm (user_data (cb_mem s cb))) s"
    define s2 where "s2 = nested_run iface
      (code (func (cb_mem s cb)) nm (user_data (cb_mem s cb)) s1) s1"
    have s1: "stays_attached s s1"
      using Suc.prems by (simp add: s1_def stays_attached_def bus_call_def)
    then have "name_listener_initialized s1"
      by (simp add: stays_attached_def)
    then have "stays_attached s1 s2"
      unfolding s2_def by (rule stays_attached_nested_run)
    with s1 have s2: "stays_attached s s2"
      by (rule stays_attached_trans)
    then have "name_listener_initialized s2"
      by (simp add: stays_attached_def)
    then have "stays_attached s2 (snd (call_callbacks fuel iface code nm d l' s2))" for l'
      by (rule Suc.IH)
    with s2 have "stays_attached s (snd (call_callbacks fuel iface code nm d l' s2))" for l'
      by (rule stays_attached_trans)
    then show ?thesis
      using s2 by (simp add: Some Let_def s1_def [symmetric] s2_def [symmetric])
  qed
qed

lemma stays_attached_name_exit_filter:
  assumes "name_listener_initialized s"
  shows "stays_attached s (snd (name_exit_filter fuel iface code m s))"
proof -
  have walk: "stays_attached s (snd (call_callbacks fuel iface code nm d l s))" for nm d l
    using assms by (rule stays_attached_call_callbacks)
  have "stays_attached s s1"
    and "stays_attached s (s1\<lparr>name_listeners := slist_remove (name_listeners s1) d\<rparr>)"
    if "call_callbacks fuel iface code nm d l s = (e, s1)" for nm d l e s1
    using walk [of nm d l] that by (simp_all add: stays_attached_def)
  then show ?thesis
    using assms
    by (auto simp: name_exit_filter_def stays_attached_refl
        split: option.splits prod.splits ending.splits)
qed

lemma stays_attached_step:
  "name_listener_initialized s \<Longrightarrow> stays_attached s (step fuel iface code c s)"
  by (cases c)
    (simp_all add: stays_attached_add stays_attached_remove stays_attached_name_exit_filter)

lemma stays_attached_run:
  "name_listener_initialized s \<Longrightarrow> stays_attached s (run fuel iface code cs s)"
proof (induction cs arbitrary: s)
  case Nil
  then show ?case by (simp add: stays_attached_refl)
next
  case (Cons c cs)
  have step: "stays_attached s (step fuel iface code c s)"
    using Cons.prems by (rule stays_attached_step)
  then have "name_listener_initialized (step fuel iface code c s)"
    by (simp add: stays_attached_def)
  then have "stays_attached (step fuel iface code c s)
      (run fuel iface code cs (step fuel iface code c s))"
    by (rule Cons.IH)
  with step show ?case
    by (auto intro: stays_attached_trans)
qed

lemma run_append:
  "\<exists>rest. run fuel iface code (cs @ cs') s = run fuel iface code rest (run fuel iface code cs s)"
proof (induction cs arbitrary: s)
  case Nil
  show ?case by (rule exI [of _ cs']) simp
next
  case (Cons c cs)
  show ?case
  proof (cases "returns fuel iface code c s")
    case True
    with Cons.IH [of "step fuel iface code c s"] show ?thesis
      by simp
  next
    case False
    then show ?thesis
      by (intro exI [of _ "[]"]) simp
  qed
qed

text \<open>
  C9. In every run from the initial state, whatever the outside answers, whatever the
  callbacks do and however the deliveries end: the filter is attached successfully at
  most once; the flag is set exactly when that has happened; every installation of a
  match rule comes after it in the list of calls; a registry that holds a subscription
  has the flag set; and once the flag is set it stays set and no later call attaches
  the filter again or tries to.
\<close>

theorem filter_attached_once_before_any_match:
  "count_list (bus_calls (run fuel iface code cs initial)) (Add_filter True) \<le> 1
   \<and> (name_listener_initialized (run fuel iface code cs initial)
        \<longleftrightarrow> Add_filter True \<in> set (bus_calls (run fuel iface code cs initial)))
   \<and> (bus_calls (run fuel iface code cs initial) = pre @ Add_match rule ok # post
        \<longrightarrow> Add_filter True \<in> set pre)
   \<and> (name_listeners (run fuel iface code cs initial) \<noteq> []
        \<longrightarrow> name_listener_initialized (run fuel iface code cs initial))
   \<and> (name_listener_initialized (run fuel iface code cs initial)
        \<longrightarrow> name_listener_initialized (run fuel iface code (cs @ cs') initial)
          \<and> filter is_add_filter (bus_calls (run fuel iface code (cs @ cs') initial)) =
              filter is_add_filter (bus_calls (run fuel iface code cs initial)))"
proof -
  have inv: "attach_inv (run fuel iface code cs initial)"
    using attach_inv_initial by (rule attach_inv_run)
  obtain rest where rest: "run fuel iface code (cs @ cs') initial =
      run fuel iface code rest (run fuel iface code cs initial)"
    using run_append by blast
  have "stays_attached (run fuel iface code cs initial) (run fuel iface code (cs @ cs') initial)"
    if "name_listener_initialized (run fuel iface code cs initial)"
    unfolding rest using that by (rule stays_attached_run)
  then show ?thesis
    using inv by (auto simp: attach_inv_def attached_before_match_def stays_attached_def)
qed

theorem filter_attached_once_before_any_match_witness:
  "bus_calls (run 3 DBUS_INTERFACE_DBUS resubscribes three_calls initial) =
     [Add_filter False, Add_filter True] @
     Add_match (match_string DBUS_INTERFACE_DBUS ''org.bluez.app'') True #
     [Add_match (match_string DBUS_INTERFACE_DBUS ''org.bluez.other'') True]
   \<and> count_list (bus_calls (run 3 DBUS_INTERFACE_DBUS resubscribes three_calls initial))
        (Add_filter True) \<le> 1
   \<and> Add_filter True \<in> set [Add_filter False, Add_filter True]
   \<and> name_listeners (run 3 DBUS_INTERFACE_DBUS resubscribes three_calls initial) \<noteq> []
   \<and> name_listener_initialized (run 3 DBUS_INTERFACE_DBUS resubscribes three_calls initial)
   \<and> name_listener_initialized
        (run 3 DBUS_INTERFACE_DBUS resubscribes (three_calls @ two_more_calls) initial)
   \<and> filter is_add_filter
        (bus_calls (run 3 DBUS_INTERFACE_DBUS resubscribes (three_calls @ two_more_calls)
           initial)) =
      filter is_add_filter (bus_calls (run 3 DBUS_INTERFACE_DBUS resubscribes three_calls initial))"
proof -
  have calls: "bus_calls (run 3 DBUS_INTERFACE_DBUS resubscribes three_calls initial) =
     [Add_filter False, Add_filter True] @
     Add_match (match_string DBUS_INTERFACE_DBUS ''org.bluez.app'') True #
     [Add_match (match_string DBUS_INTERFACE_DBUS ''org.bluez.other'') True]"
    by (simp add: three_calls_def registry_defs)
  have ne: "name_listeners (run 3 DBUS_INTERFACE_DBUS resubscribes three_calls initial) \<noteq> []"
    by (simp add: three_calls_def registry_defs)
  show ?thesis
    using calls ne
      filter_attached_once_before_any_match [of 3 DBUS_INTERFACE_DBUS resubscribes three_calls
        "[Add_filter False, Add_filter True]"
        "match_string DBUS_INTERFACE_DBUS ''org.bluez.app''" True
        "[Add_match (match_string DBUS_INTERFACE_DBUS ''org.bluez.other'') True]"
        two_more_calls]
    by simp
qed

end
